theory Spec2Isabelle
  imports Complex_Main "HOL-Library.AList" "HOL-Library.Extended_Nat" "HOL-Library.Code_Target_Nat"
begin

section \<open>Data model of \<^verbatim>\<open>script.js\<close>\<close>

text \<open>
  A node object \<^verbatim>\<open>{ id, x, y, label }\<close> with the optional \<^verbatim>\<open>color\<close> property that
  \<^verbatim>\<open>setStartNode\<close>, \<^verbatim>\<open>setGoalNode\<close>, \<^verbatim>\<open>resetVisualization\<close> and \<^verbatim>\<open>showStep\<close> write
  and delete. Coordinates are JavaScript numbers; they are carried as reals. What the
  drawing and layout code adds to a node or an edge (\<^verbatim>\<open>vx\<close>, \<^verbatim>\<open>vy\<close>,
  \<^verbatim>\<open>_weightBox\<close>) is left out.
\<close>

record node =
  nid :: nat
  nx :: real
  ny :: real
  nlabel :: string
  ncolor :: "string option"

text \<open>
  An edge object \<^verbatim>\<open>{ from, to, weight }\<close> with its optional \<^verbatim>\<open>color\<close>. A
  weight is carried as a natural number. The random draw gives one from 1 to 20; a
  prompt gives a positive integer that is a double, or \<^verbatim>\<open>Infinity\<close>, which this
  type does not hold (see \<open>InfiniteWeight\<close> below).
\<close>

record edge =
  efrom :: nat
  eto :: nat
  eweight :: nat
  ecolor :: "string option"

text \<open>
  The text of a step's \<^verbatim>\<open>desc\<close>: one constructor for each template string of the
  generators, holding the values the template interpolates. \<^verbatim>\<open>label || id\<close> is the
  label unless it is the empty string. A number read from a map may be
  \<^verbatim>\<open>undefined\<close> (\<open>None\<close>); \<open>\<infinity>\<close> is \<^verbatim>\<open>Infinity\<close>.
\<close>

datatype name = Label string | Ident nat

text \<open>
  A score of the object \<^verbatim>\<open>fScore\<close>: a finite number or \<^verbatim>\<open>Infinity\<close>. The
  distances of \<^verbatim>\<open>dist\<close> and the costs of \<^verbatim>\<open>gScore\<close> are sums of edge weights
  or \<^verbatim>\<open>Infinity\<close>, the type \<open>enat\<close>.
\<close>

datatype score = Finite real | Infinity

datatype description =
    StartingBFS name
  | StartingDFS name
  | VisitingNode name
  | NeighborsOf name "nat list"
  | DiscoveredNode nat
  | SkippingVisited nat
  | AddingUnvisited "nat list"
  | BFSCompleted
  | DFSCompleted
  | StartingDijkstra name
  | VisitingWithDistance name "enat option"
  | FoundShortestPath "enat option"
  | UpdatedDistance nat enat
  | DijkstraCompleted
  | StartingAStar name
  | FoundPath "enat option"
  | VisitingWithFScore nat score
  | UpdatedScores nat enat score
  | AStarCompleted
  | NotImplemented string

text \<open>
  A step \<^verbatim>\<open>{ desc, ds, visited, path }\<close> with the properties only some generators
  add: \<^verbatim>\<open>dist\<close> (the field \<open>distances\<close>, the entries of the map \<^verbatim>\<open>dist\<close>),
  \<^verbatim>\<open>gScore\<close> and \<^verbatim>\<open>fScore\<close> (copies of the two objects). Nothing reads these
  three.
\<close>

record step =
  desc :: description
  ds :: "nat list"
  visited :: "nat list"
  path :: "nat list"
  distances :: "(nat \<times> enat) list option"
  gScores :: "(nat \<times> enat) list option"
  fScores :: "(nat \<times> score) list option"

text \<open>
  A history entry \<^verbatim>\<open>stateCopy\<close> of \<^verbatim>\<open>saveState\<close>: the nodes and edges as
  \<^verbatim>\<open>JSON.parse(JSON.stringify(...))\<close> copies them (every own property, the colour
  included), and the start and goal as references to live node objects.
\<close>

record snapshot =
  snodes :: "node list"
  sedges :: "edge list"
  sstartNode :: "nat option"
  sgoalNode :: "nat option"

datatype algo =
    BFS | DFS | Dijkstra | AStar | Prim | Kruskal | BellmanFord | FloydWarshall
  | Topological | ConnectedComponents

text \<open>
  The global \<^verbatim>\<open>state\<close>. Node objects have an identity of their own
  (\<^verbatim>\<open>state.startNode === node\<close> compares references), so they live in \<open>heap\<close>,
  and a reference is an index into it; \<open>nodes\<close> is the array \<^verbatim>\<open>state.nodes\<close> of
  references. \<open>adj\<close> is the \<^verbatim>\<open>Map\<close> from a node id to its array of
  \<^verbatim>\<open>{ node, weight }\<close> entries, in insertion order. \<open>directed\<close> is the
  \<^verbatim>\<open>directed-toggle\<close> checkbox. \<open>intervalId\<close> is the handle of the running
  \<^verbatim>\<open>setInterval\<close> timer as the script remembers it, \<open>liveTimers\<close> the timers
  the browser really has running, \<open>timerCount\<close> the number of handles given out.
  The handles of \<^verbatim>\<open>setInterval\<close> are positive integers, so that
  \<^verbatim>\<open>if (state.intervalId)\<close> asks whether there is one: \<open>Some n\<close> stands for the
  handle \<open>n + 1\<close>.
\<close>

record state =
  heap :: "node list"
  nodes :: "nat list"
  edges :: "edge list"
  adj :: "(nat \<times> (nat \<times> nat) list) list"
  startNode :: "nat option"
  goalNode :: "nat option"
  selectedEdgeStart :: "nat option"
  steps :: "step list"
  stepIndex :: nat
  intervalId :: "nat option"
  liveTimers :: "nat set"
  timerCount :: nat
  currentAlgo :: algo
  history :: "snapshot list"
  historyIndex :: int
  selectedNodes :: "nat set"
  searchResults :: "nat set"
  directed :: bool

text \<open>The state the script starts with: a fresh session.\<close>

definition init :: state where
  "init = \<lparr> heap = [], nodes = [], edges = [], adj = [], startNode = None, goalNode = None,
     selectedEdgeStart = None, steps = [], stepIndex = 0, intervalId = None, liveTimers = {},
     timerCount = 0, currentAlgo = BFS, history = [], historyIndex = - 1, selectedNodes = {},
     searchResults = {}, directed = False \<rparr>"

text \<open>
  How a handler can end without doing its work: the prompt was cancelled, one of the
  alerts was shown and the handler returned, an uncaught \<^verbatim>\<open>TypeError\<close> was thrown
  (a property of \<^verbatim>\<open>null\<close> or \<^verbatim>\<open>undefined\<close> was read), or a loop never ends
  (\<open>Loops\<close>). The state after an exception is not followed any further. Nor is
  the state after \<open>InfiniteWeight\<close>: there the script has done its work and stored
  the weight \<^verbatim>\<open>Infinity\<close>, which is not a weight of the type \<open>edge\<close>.
\<close>

datatype error =
    Cancelled | InvalidWeight | DuplicateEdge | MissingStart | MissingGoal | TypeError | Loops
  | InfiniteWeight

definition COLORS_START :: string where "COLORS_START = ''#16a34a''"
definition COLORS_GOAL :: string where "COLORS_GOAL = ''#dc2626''"
definition COLORS_VISITING :: string where "COLORS_VISITING = ''#f59e0b''"
definition COLORS_VISITED :: string where "COLORS_VISITED = ''#0ea5e9''"
definition COLORS_PATH :: string where "COLORS_PATH = ''#8b5cf6''"
definition COLORS_ACTIVE_EDGE :: string where "COLORS_ACTIVE_EDGE = ''#f43f5e''"

subsection \<open>Helpers for arrays, objects and the adjacency \<^verbatim>\<open>Map\<close>\<close>

text \<open>\<^verbatim>\<open>xs[i]\<close>: \<open>None\<close> is JavaScript's \<^verbatim>\<open>undefined\<close> for an index out of range.\<close>

definition index :: "'a list \<Rightarrow> int \<Rightarrow> 'a option" where
  "index xs i = (if 0 \<le> i \<and> i < int (length xs) then Some (xs ! nat i) else None)"

text \<open>\<^verbatim>\<open>xs.slice(0, e)\<close>: a negative end counts from the end of the array.\<close>

definition slice0 :: "'a list \<Rightarrow> int \<Rightarrow> 'a list" where
  "slice0 xs e = take (nat (if e < 0 then int (length xs) + e else e)) xs"

text \<open>The node object a reference points to, and \<^verbatim>\<open>state.nodes.find(n => n.id === i)\<close>.\<close>

definition obj :: "state \<Rightarrow> nat \<Rightarrow> node" where
  "obj s r = heap s ! r"

definition findNode :: "state \<Rightarrow> nat \<Rightarrow> nat option" where
  "findNode s i = find (\<lambda>r. nid (obj s r) = i) (nodes s)"

text \<open>\<^verbatim>\<open>state.adj.get(k) || []\<close> and \<^verbatim>\<open>state.adj.has(k)\<close>.\<close>

definition adjGet :: "(nat \<times> (nat \<times> nat) list) list \<Rightarrow> nat \<Rightarrow> (nat \<times> nat) list" where
  "adjGet a k = (case map_of a k of None \<Rightarrow> [] | Some es \<Rightarrow> es)"

definition adjHas :: "(nat \<times> (nat \<times> nat) list) list \<Rightarrow> nat \<Rightarrow> bool" where
  "adjHas a k = (map_of a k \<noteq> None)"

text \<open>
  \<^verbatim>\<open>if (!adj.has(k)) adj.set(k, []); adj.get(k).push({ node: v, weight: w })\<close>.
\<close>

definition adjPush :: "nat \<Rightarrow> nat \<times> nat \<Rightarrow> (nat \<times> (nat \<times> nat) list) list
    \<Rightarrow> (nat \<times> (nat \<times> nat) list) list" where
  "adjPush k e a = AList.update k (adjGet a k @ [e]) a"

section \<open>Edit history\<close>

text \<open>
  \<^verbatim>\<open>saveState\<close>: cut the entries after the cursor, push a copy of the nodes, the edges
  and the start and goal (looked up by id among the current nodes), move the cursor to
  the last entry, and drop the oldest entry when there are more than 50.
\<close>

definition stateCopy :: "state \<Rightarrow> snapshot" where
  "stateCopy s = \<lparr> snodes = map (obj s) (nodes s), sedges = edges s,
     sstartNode = (case startNode s of None \<Rightarrow> None | Some r \<Rightarrow> findNode s (nid (obj s r))),
     sgoalNode = (case goalNode s of None \<Rightarrow> None | Some r \<Rightarrow> findNode s (nid (obj s r))) \<rparr>"

definition saveState :: "state \<Rightarrow> state" where
  "saveState s =
     (let h1 = (if historyIndex s < int (length (history s)) - 1
                then slice0 (history s) (historyIndex s + 1) else history s);
          h2 = h1 @ [stateCopy s];
          i2 = int (length h2) - 1
      in if length h2 > 50 then s\<lparr>history := tl h2, historyIndex := i2 - 1\<rparr>
         else s\<lparr>history := h2, historyIndex := i2\<rparr>)"

text \<open>
  \<^verbatim>\<open>updateAdjacencyList\<close>: clear the map, give every node an empty array, then push
  every edge to its source's array and, when the graph is undirected, to its target's.
\<close>

definition updateAdjacencyList :: "state \<Rightarrow> state" where
  "updateAdjacencyList s =
     (let a0 = fold (\<lambda>r a. AList.update (nid (obj s r)) [] a) (nodes s) [];
          a1 = fold (\<lambda>e a.
                 (let a' = adjPush (efrom e) (eto e, eweight e) a
                  in if \<not> directed s then adjPush (eto e) (efrom e, eweight e) a' else a'))
               (edges s) a0
      in s\<lparr>adj := a1\<rparr>)"

text \<open>
  \<^verbatim>\<open>restoreState\<close>: fresh copies of the entry's nodes become the node objects, the
  start and goal are looked up among them by the id of the entry's start and goal, and
  the adjacency map is rebuilt. Reading \<^verbatim>\<open>historyState.nodes\<close> of an entry that does
  not exist throws.
\<close>

definition restoreState :: "state \<Rightarrow> error + state" where
  "restoreState s =
     (case index (history s) (historyIndex s) of
        None \<Rightarrow> Inl TypeError
      | Some h \<Rightarrow>
          (let s1 = s\<lparr>heap := heap s @ snodes h,
                       nodes := [length (heap s) ..< length (heap s) + length (snodes h)],
                       edges := sedges h\<rparr>;
               s2 = s1\<lparr>startNode :=
                       (case sstartNode h of None \<Rightarrow> None | Some r \<Rightarrow> findNode s1 (nid (obj s1 r)))\<rparr>;
               s3 = s2\<lparr>goalNode :=
                       (case sgoalNode h of None \<Rightarrow> None | Some r \<Rightarrow> findNode s2 (nid (obj s2 r)))\<rparr>
           in Inr (updateAdjacencyList s3)))"

definition undo :: "state \<Rightarrow> error + state" where
  "undo s = (if historyIndex s > 0 then restoreState (s\<lparr>historyIndex := historyIndex s - 1\<rparr>)
             else Inr s)"

definition redo :: "state \<Rightarrow> error + state" where
  "redo s = (if historyIndex s < int (length (history s)) - 1
             then restoreState (s\<lparr>historyIndex := historyIndex s + 1\<rparr>) else Inr s)"

text \<open>\<open>undoTimes k\<close>: \<^verbatim>\<open>undo()\<close> called \<open>k\<close> times in a row.\<close>

fun undoTimes :: "nat \<Rightarrow> state \<Rightarrow> error + state" where
  "undoTimes 0 s = Inr s"
| "undoTimes (Suc k) s = (case undo s of Inl e \<Rightarrow> Inl e | Inr s' \<Rightarrow> undoTimes k s')"

text \<open>
  A graph edit, as far as the history is concerned: any change of the state that leaves
  the history stack and its cursor alone, followed by one \<^verbatim>\<open>saveState()\<close>.
\<close>

definition keepsHistory :: "(state \<Rightarrow> state) \<Rightarrow> bool" where
  "keepsHistory f = (\<forall>s. history (f s) = history s \<and> historyIndex (f s) = historyIndex s)"

definition pushesOneSnapshot :: "(state \<Rightarrow> state) \<Rightarrow> bool" where
  "pushesOneSnapshot g = (\<exists>f. keepsHistory f \<and> (\<forall>s. g s = saveState (f s)))"

definition edits :: "(state \<Rightarrow> state) list \<Rightarrow> state \<Rightarrow> state" where
  "edits gs s = fold (\<lambda>g s. g s) gs s"

section \<open>Strings and numbers\<close>

text \<open>\<^verbatim>\<open>String(n)\<close> for a non-negative integer: its decimal digits.\<close>

definition digit :: "nat \<Rightarrow> char" where
  "digit d = ''0123456789'' ! d"

fun toString :: "nat \<Rightarrow> string" where
  "toString n = (if n < 10 then [digit n] else toString (n div 10) @ [digit (n mod 10)])"

declare toString.simps [simp del]

text \<open>
  A JavaScript string is a sequence of UTF-16 code units. The text typed into a prompt
  is carried as the list of the values of its code units, since \<^verbatim>\<open>parseInt\<close> looks
  at each of them. \<open>codeUnits\<close> gives the code units of a string of the characters
  of this theory (the first 256 code points).
\<close>

definition codeUnits :: "string \<Rightarrow> nat list" where
  "codeUnits str = map of_char str"

text \<open>
  The white space \<^verbatim>\<open>parseInt\<close> skips (\<^verbatim>\<open>StrWhiteSpaceChar\<close> of ECMAScript): tab,
  line feed, vertical tab, form feed, carriage return, space, no-break space, the
  other space separators of Unicode (U+1680, U+2000 to U+200A, U+202F, U+205F, U+3000),
  the line and paragraph separators U+2028 and U+2029, and the byte order mark U+FEFF.
\<close>

definition isWhiteSpace :: "nat \<Rightarrow> bool" where
  "isWhiteSpace c =
     (c \<in> {0x9, 0xA, 0xB, 0xC, 0xD, 0x20, 0xA0, 0x1680, 0x2028, 0x2029, 0x202F, 0x205F,
            0x3000, 0xFEFF}
      \<or> (0x2000 \<le> c \<and> c \<le> 0x200A))"

text \<open>The value of a digit or letter as a digit: 0 to 9, then a to z or A to Z for 10 to 35.\<close>

definition digitValue :: "nat \<Rightarrow> nat option" where
  "digitValue c =
     (if 48 \<le> c \<and> c \<le> 57 then Some (c - 48)
      else if 97 \<le> c \<and> c \<le> 122 then Some (c - 87)
      else if 65 \<le> c \<and> c \<le> 90 then Some (c - 55)
      else None)"

definition isDigit :: "nat \<Rightarrow> nat \<Rightarrow> bool" where
  "isDigit radix c = (case digitValue c of None \<Rightarrow> False | Some d \<Rightarrow> d < radix)"

definition digitsValue :: "nat \<Rightarrow> nat list \<Rightarrow> nat" where
  "digitsValue radix cs = fold (\<lambda>c n. n * radix + the (digitValue c)) cs 0"

text \<open>
  The Number value of a non-negative integer: the nearest double, the one with the even
  significand when two are equally near, and \<^verbatim>\<open>Infinity\<close> (\<open>\<infinity>\<close>) when that would
  take an exponent above 1023. An integer of at most 53 binary digits is a double.
  A longer one of \<open>b\<close> binary digits lies between two neighbouring multiples of
  \<open>2\<^bsup>b - 53\<^esup>\<close>, which are doubles.
\<close>

fun bitLength :: "nat \<Rightarrow> nat" where
  "bitLength n = (if n = 0 then 0 else Suc (bitLength (n div 2)))"

declare bitLength.simps [simp del]

definition toDouble :: "nat \<Rightarrow> enat" where
  "toDouble n =
     (if n < 2 ^ 53 then enat n
      else (let q = 2 ^ (bitLength n - 53);
                m = n div q;
                r = n mod q;
                m' = (if q < 2 * r \<or> (2 * r = q \<and> odd m) then m + 1 else m)
            in if 2 ^ 1024 \<le> m' * q then \<infinity> else enat (m' * q)))"

text \<open>
  \<^verbatim>\<open>parseInt(str)\<close> with no radix: white space is skipped, then an optional sign, then
  \<^verbatim>\<open>0x\<close> or \<^verbatim>\<open>0X\<close> selects radix 16 (radix 10 otherwise), and the longest run of digits of
  that radix is the number; whatever follows the digits is ignored. With no digit the
  result is \<^verbatim>\<open>NaN\<close> (\<open>None\<close>). Otherwise it is the Number value of the integer the
  digits denote, with its sign: \<open>(negative, magnitude)\<close>, where the magnitude \<open>\<infinity>\<close> is
  \<^verbatim>\<open>Infinity\<close> and \<open>(True, 0)\<close> is \<^verbatim>\<open>-0\<close>.
\<close>

definition parseInt :: "nat list \<Rightarrow> (bool \<times> enat) option" where
  "parseInt str =
     (let s1 = dropWhile isWhiteSpace str;
          (negative, s2) = (case s1 of [] \<Rightarrow> (False, s1)
             | c # r \<Rightarrow> if c = of_char CHR ''-'' then (True, r)
                        else if c = of_char CHR ''+'' then (False, r) else (False, s1));
          (radix, s3) = (case s2 of
               c # x # r \<Rightarrow> if c = of_char CHR ''0'' \<and> (x = of_char CHR ''x'' \<or> x = of_char CHR ''X'')
                             then (16, r) else (10, s2)
             | _ \<Rightarrow> (10, s2));
          digits = takeWhile (isDigit radix) s3
      in if digits = [] then None
         else Some (negative, toDouble (digitsValue radix digits)))"

text \<open>\<^verbatim>\<open>num > 0\<close> for a number \<^verbatim>\<open>parseInt\<close> returned.\<close>

definition positive :: "bool \<times> enat \<Rightarrow> bool" where
  "positive num = (\<not> fst num \<and> 0 < snd num)"

section \<open>Graph store\<close>

text \<open>
  \<^verbatim>\<open>addNode(pos)\<close>, with \<open>(x, y)\<close> the position after the zoom, pan and grid
  adjustment. The new id is the current number of nodes.
\<close>

definition addNode :: "real \<times> real \<Rightarrow> state \<Rightarrow> state" where
  "addNode pos s =
     (let i = length (nodes s);
          newNode = \<lparr> nid = i, nx = fst pos, ny = snd pos, nlabel = toString i, ncolor = None \<rparr>
      in saveState (s\<lparr>heap := heap s @ [newNode],
                      nodes := nodes s @ [length (heap s)],
                      adj := AList.update i [] (adj s)\<rparr>))"

text \<open>
  The weight of a new edge: \<open>rnd + 1\<close> when the \<^verbatim>\<open>random-weight\<close> box is checked
  (\<open>rnd\<close> is \<^verbatim>\<open>Math.floor(Math.random() * 20)\<close>), and otherwise what the prompt
  returns (\<open>None\<close> when it is cancelled), read by \<^verbatim>\<open>parseInt\<close> and refused when it
  is \<^verbatim>\<open>NaN\<close> or not positive. The weight may be \<^verbatim>\<open>Infinity\<close>.
\<close>

definition readWeight :: "nat list \<Rightarrow> error + enat" where
  "readWeight str =
     (case parseInt str of None \<Rightarrow> Inl InvalidWeight
      | Some weight \<Rightarrow> if \<not> positive weight then Inl InvalidWeight else Inr (snd weight))"

definition edgeWeight :: "bool \<Rightarrow> nat \<Rightarrow> nat list option \<Rightarrow> error + enat" where
  "edgeWeight randomWeightEnabled rnd input =
     (if randomWeightEnabled then Inr (enat (rnd + 1))
      else case input of None \<Rightarrow> Inl Cancelled | Some str \<Rightarrow> readWeight str)"

definition edgeExists :: "state \<Rightarrow> nat \<Rightarrow> nat \<Rightarrow> bool" where
  "edgeExists s f t =
     list_ex (\<lambda>e. (efrom e = f \<and> eto e = t) \<or> (\<not> directed s \<and> efrom e = t \<and> eto e = f))
       (edges s)"

text \<open>
  \<^verbatim>\<open>addEdge(fromNode, toNode)\<close>. The two early returns after an alert are the errors
  \<open>InvalidWeight\<close> and \<open>DuplicateEdge\<close>; nothing has been written when they happen.
  An edge of weight \<^verbatim>\<open>Infinity\<close> that the script goes on to store is
  \<open>InfiniteWeight\<close>.
\<close>

definition addEdge :: "bool \<Rightarrow> nat \<Rightarrow> nat list option \<Rightarrow> nat \<Rightarrow> nat \<Rightarrow> state \<Rightarrow> error + state" where
  "addEdge randomWeightEnabled rnd input fromNode toNode s =
     (case edgeWeight randomWeightEnabled rnd input of
        Inl e \<Rightarrow> Inl e
      | Inr number \<Rightarrow>
          (let f = nid (obj s fromNode); t = nid (obj s toNode)
           in if edgeExists s f t then Inl DuplicateEdge
              else
                (case number of
                   \<infinity> \<Rightarrow> Inl InfiniteWeight
                 | enat weight \<Rightarrow>
                     (let s1 = s\<lparr>edges := edges s @
                                 [\<lparr> efrom = f, eto = t, eweight = weight, ecolor = None \<rparr>]\<rparr>;
                          s2 = s1\<lparr>adj := adjPush f (t, weight) (adj s1)\<rparr>;
                          s3 = (if \<not> directed s then s2\<lparr>adj := adjPush t (f, weight) (adj s2)\<rparr>
                                else s2)
                      in Inr (saveState (s3\<lparr>selectedEdgeStart := None\<rparr>))))))"

text \<open>\<^verbatim>\<open>deleteNode(node)\<close>; the start and the goal are compared by reference.\<close>

definition deleteNode :: "nat \<Rightarrow> state \<Rightarrow> state" where
  "deleteNode node s =
     (let i = nid (obj s node);
          s1 = s\<lparr>nodes := filter (\<lambda>r. nid (obj s r) \<noteq> i) (nodes s)\<rparr>;
          s2 = s1\<lparr>edges := filter (\<lambda>e. efrom e \<noteq> i \<and> eto e \<noteq> i) (edges s1)\<rparr>;
          s3 = s2\<lparr>adj := map (\<lambda>(k, v). (k, filter (\<lambda>n. fst n \<noteq> i) v))
                            (AList.delete i (adj s2))\<rparr>;
          s4 = (if startNode s3 = Some node then s3\<lparr>startNode := None\<rparr> else s3);
          s5 = (if goalNode s4 = Some node then s4\<lparr>goalNode := None\<rparr> else s4);
          s6 = s5\<lparr>selectedNodes := selectedNodes s5 - {i},
                   searchResults := searchResults s5 - {i}\<rparr>
      in saveState s6)"

text \<open>
  \<^verbatim>\<open>deleteEdge(edge)\<close>: the edge object is an element of \<^verbatim>\<open>state.edges\<close> (it comes
  from \<^verbatim>\<open>findClosestEdge\<close>), given here by its position \<open>k\<close>.
\<close>

definition deleteEdge :: "nat \<Rightarrow> state \<Rightarrow> state" where
  "deleteEdge k s =
     saveState (updateAdjacencyList (s\<lparr>edges := take k (edges s) @ drop (Suc k) (edges s)\<rparr>))"

text \<open>
  The first branch of \<^verbatim>\<open>handleClick\<close>: the click hit the edge at position \<open>k\<close> of
  \<^verbatim>\<open>state.edges\<close> and \<open>input\<close> is what the prompt \<^verbatim>\<open>Edit edge weight:\<close> returned.
  A refused weight changes nothing and shows no message; it is the error
  \<open>InvalidWeight\<close> here. The weight \<^verbatim>\<open>Infinity\<close>, which the script stores, is
  \<open>InfiniteWeight\<close>.
\<close>

definition handleClickEdge :: "nat \<Rightarrow> nat list option \<Rightarrow> state \<Rightarrow> error + state" where
  "handleClickEdge k input s =
     (case input of
        None \<Rightarrow> Inl Cancelled
      | Some newW \<Rightarrow>
          (case parseInt newW of
             None \<Rightarrow> Inl InvalidWeight
           | Some num \<Rightarrow>
               if positive num
               then (case snd num of
                       \<infinity> \<Rightarrow> Inl InfiniteWeight
                     | enat weight \<Rightarrow>
                         Inr (saveState (updateAdjacencyList
                           (s\<lparr>edges := (edges s)[k := (edges s ! k)\<lparr>eweight := weight\<rparr>]\<rparr>))))
               else Inl InvalidWeight))"

text \<open>\<^verbatim>\<open>setStartNode(node)\<close> and \<^verbatim>\<open>setGoalNode(node)\<close>.\<close>

definition setColor :: "nat \<Rightarrow> string option \<Rightarrow> state \<Rightarrow> state" where
  "setColor r c s = s\<lparr>heap := (heap s)[r := (heap s ! r)\<lparr>ncolor := c\<rparr>]\<rparr>"

definition setStartNode :: "nat option \<Rightarrow> state \<Rightarrow> state" where
  "setStartNode node s =
     (let s1 = (case startNode s of None \<Rightarrow> s | Some r \<Rightarrow> setColor r None s);
          s2 = s1\<lparr>startNode := node\<rparr>;
          s3 = (case node of None \<Rightarrow> s2 | Some r \<Rightarrow> setColor r (Some COLORS_START) s2)
      in saveState s3)"

definition setGoalNode :: "nat option \<Rightarrow> state \<Rightarrow> state" where
  "setGoalNode node s =
     (let s1 = (case goalNode s of None \<Rightarrow> s | Some r \<Rightarrow> setColor r None s);
          s2 = s1\<lparr>goalNode := node\<rparr>;
          s3 = (case node of None \<Rightarrow> s2 | Some r \<Rightarrow> setColor r (Some COLORS_GOAL) s2)
      in saveState s3)"

section \<open>Step-trace generators\<close>

definition labelOrId :: "node \<Rightarrow> name" where
  "labelOrId n = (if nlabel n = [] then Ident (nid n) else Label (nlabel n))"

text \<open>
  \<^verbatim>\<open>a < b\<close> on two numbers read from a map: false when either is \<^verbatim>\<open>undefined\<close>.
\<close>

definition lessNum :: "enat option \<Rightarrow> enat option \<Rightarrow> bool" where
  "lessNum a b = (case (a, b) of (Some x, Some y) \<Rightarrow> x < y | _ \<Rightarrow> False)"

subsection \<open>Breadth-first and depth-first traversal\<close>

text \<open>
  A step of \<^verbatim>\<open>prepareBFS\<close> or \<^verbatim>\<open>prepareDFS\<close>. The set \<^verbatim>\<open>visited\<close> is kept
  as the list of its elements in insertion order, which is what \<^verbatim>\<open>[...visited]\<close>
  copies into the step.
\<close>

definition plainStep :: "description \<Rightarrow> nat list \<Rightarrow> nat list \<Rightarrow> step" where
  "plainStep d frontier seen = \<lparr> desc = d, ds = frontier, visited = seen, path = [],
       distances = None, gScores = None, fScores = None \<rparr>"

text \<open>The body of \<^verbatim>\<open>for (const neighbor of neighbors)\<close> in \<^verbatim>\<open>prepareBFS\<close>.\<close>

definition discover :: "nat \<times> nat \<Rightarrow> nat list \<times> nat list \<times> step list
    \<Rightarrow> nat list \<times> nat list \<times> step list" where
  "discover neighbor st =
     (case st of (queue, seen, acc) \<Rightarrow>
        if fst neighbor \<notin> set seen
        then (queue @ [fst neighbor], seen @ [fst neighbor],
              acc @ [plainStep (DiscoveredNode (fst neighbor))
                       (queue @ [fst neighbor]) (seen @ [fst neighbor])])
        else st)"

text \<open>
  Every node id that occurs as a neighbour in the adjacency map: what the loops can
  still discover is drawn from this finite set, which is why they end.
\<close>

definition targets :: "(nat \<times> (nat \<times> nat) list) list \<Rightarrow> nat set" where
  "targets a = (\<Union>(k, es) \<in> set a. fst ` set es)"

lemma finite_targets: "finite (targets a)"
  by (auto simp: targets_def)

lemma adjGet_targets: "fst ` set (adjGet a k) \<subseteq> targets a"
proof
  fix x assume "x \<in> fst ` set (adjGet a k)"
  then obtain es where "map_of a k = Some es" and x: "x \<in> fst ` set es"
    by (cases "map_of a k") (auto simp: adjGet_def)
  then have "(k, es) \<in> set a" by (simp add: map_of_SomeD)
  with x show "x \<in> targets a" unfolding targets_def by blast
qed

definition bfsMeasure :: "(nat \<times> (nat \<times> nat) list) list \<Rightarrow> nat list \<Rightarrow> nat list \<Rightarrow> nat" where
  "bfsMeasure a queue seen = 2 * card (targets a - set seen) + length queue"

lemma discover_measure:
  assumes "fst neighbor \<in> targets a" and "discover neighbor (queue, seen, acc) = (queue', seen', acc')"
  shows "bfsMeasure a queue' seen' \<le> bfsMeasure a queue seen"
proof (cases "fst neighbor \<in> set seen")
  case True
  with assms show ?thesis by (simp add: discover_def)
next
  case False
  with assms have q: "queue' = queue @ [fst neighbor]" and v: "seen' = seen @ [fst neighbor]"
    by (simp_all add: discover_def)
  have "targets a - set seen' = (targets a - set seen) - {fst neighbor}" using v by auto
  moreover have "fst neighbor \<in> targets a - set seen" using assms(1) False by simp
  ultimately have "card (targets a - set seen') < card (targets a - set seen)"
    using finite_targets [of a] by (metis card_Diff1_less finite_Diff)
  then show ?thesis using q by (simp add: bfsMeasure_def)
qed

lemma fold_discover_measure:
  assumes "fst ` set ns \<subseteq> targets a" and "fold discover ns (queue, seen, acc) = (queue', seen', acc')"
  shows "bfsMeasure a queue' seen' \<le> bfsMeasure a queue seen"
  using assms
proof (induction ns arbitrary: queue seen acc)
  case Nil
  then show ?case by simp
next
  case (Cons n ns)
  obtain q1 v1 a1 where d: "discover n (queue, seen, acc) = (q1, v1, a1)"
    by (cases "discover n (queue, seen, acc)") auto
  have "bfsMeasure a q1 v1 \<le> bfsMeasure a queue seen"
    using discover_measure [OF _ d] Cons.prems(1) by simp
  moreover have "bfsMeasure a queue' seen' \<le> bfsMeasure a q1 v1"
    using Cons.IH [of q1 v1 a1] Cons.prems d by simp
  ultimately show ?case by simp
qed

text \<open>\<^verbatim>\<open>while (queue.length > 0)\<close> of \<^verbatim>\<open>prepareBFS\<close>.\<close>

function bfsLoop :: "state \<Rightarrow> nat list \<Rightarrow> nat list \<Rightarrow> step list \<Rightarrow> error + nat list \<times> step list" where
  "bfsLoop s queue seen acc =
     (case queue of
        [] \<Rightarrow> Inr (seen, acc)
      | current # rest \<Rightarrow>
          (case findNode s current of
             None \<Rightarrow> Inl TypeError
           | Some r \<Rightarrow>
               (let neighbors = adjGet (adj s) current;
                    acc1 = acc @ [plainStep (VisitingNode (labelOrId (obj s r))) rest seen,
                                  plainStep (NeighborsOf (labelOrId (obj s r)) (map fst neighbors))
                                    rest seen]
                in case fold discover neighbors (rest, seen, acc1) of
                     (queue', seen', acc2) \<Rightarrow> bfsLoop s queue' seen' acc2)))"
  by pat_completeness auto
termination
proof (relation "measure (\<lambda>(s, queue, seen, acc). bfsMeasure (adj s) queue seen)", goal_cases)
  case 1
  show ?case by simp
next
  case (2 s queue seen acc current rest r neighbors acc1 queue' y seen' acc2)
  then have "fold discover (adjGet (adj s) current) (rest, seen, acc1) = (queue', seen', acc2)"
    by simp
  from fold_discover_measure [OF adjGet_targets this]
  have "bfsMeasure (adj s) queue' seen' \<le> bfsMeasure (adj s) rest seen" .
  also have "\<dots> < bfsMeasure (adj s) queue seen"
    using 2(1) by (simp add: bfsMeasure_def)
  finally show ?case by simp
qed

declare bfsLoop.simps [simp del]

text \<open>
  \<^verbatim>\<open>while (stack.length > 0)\<close> of \<^verbatim>\<open>prepareDFS\<close>; the top of the stack is the
  last element.
\<close>

lemma dfs_push_measure:
  assumes "stack \<noteq> []" and "last stack \<notin> set seen"
    and "set new \<subseteq> targets a"
  shows "card ((targets a \<union> set (butlast stack @ new)) - set (seen @ [last stack]))
         < card ((targets a \<union> set stack) - set seen)"
proof (rule psubset_card_mono)
  show "finite ((targets a \<union> set stack) - set seen)" by (simp add: finite_targets)
  have "set (butlast stack) \<subseteq> set stack" by (simp add: in_set_butlastD subsetI)
  moreover have "last stack \<in> set stack" using assms(1) by simp
  ultimately show "(targets a \<union> set (butlast stack @ new)) - set (seen @ [last stack])
        \<subset> (targets a \<union> set stack) - set seen"
    using assms(2,3) by auto
qed

lemma dfs_skip_measure:
  "card ((targets a \<union> set (butlast stack)) - set seen) \<le> card ((targets a \<union> set stack) - set seen)"
proof (rule card_mono)
  show "finite ((targets a \<union> set stack) - set seen)" by (simp add: finite_targets)
  have "set (butlast stack) \<subseteq> set stack" by (simp add: in_set_butlastD subsetI)
  then show "(targets a \<union> set (butlast stack)) - set seen \<subseteq> (targets a \<union> set stack) - set seen"
    by auto
qed

function dfsLoop :: "state \<Rightarrow> nat list \<Rightarrow> nat list \<Rightarrow> step list \<Rightarrow> error + nat list \<times> step list" where
  "dfsLoop s stack seen acc =
     (if stack = [] then Inr (seen, acc)
      else
        (let current = last stack; rest = butlast stack
         in if current \<in> set seen
            then dfsLoop s rest seen (acc @ [plainStep (SkippingVisited current) rest seen])
            else
              (let seen' = seen @ [current]
               in case findNode s current of
                    None \<Rightarrow> Inl TypeError
                  | Some r \<Rightarrow>
                      (let acc1 = acc @ [plainStep (VisitingNode (labelOrId (obj s r))) rest seen'];
                           neighbors = adjGet (adj s) current;
                           unvisitedNeighbors = filter (\<lambda>n. fst n \<notin> set seen') neighbors
                       in if unvisitedNeighbors \<noteq> []
                          then dfsLoop s (rest @ rev (map fst unvisitedNeighbors)) seen'
                                 (acc1 @ [plainStep (AddingUnvisited (map fst unvisitedNeighbors))
                                            rest seen'])
                          else dfsLoop s rest seen' acc1))))"
  by pat_completeness auto
termination
proof (relation "measures [\<lambda>(s, stack, seen, acc). card ((targets (adj s) \<union> set stack) - set seen),
                           \<lambda>(s, stack, seen, acc). length stack]", goal_cases)
  case 1
  show ?case by simp
next
  case (2 s stack seen acc current rest)
  then show ?case
    using dfs_skip_measure [of "adj s" stack seen] by (cases stack rule: rev_cases) auto
next
  case (3 s stack seen acc current rest seen' r acc1 neighbors unvisitedNeighbors)
  have "set (rev (map fst unvisitedNeighbors)) \<subseteq> targets (adj s)"
    using adjGet_targets [of "adj s" current] 3 by auto
  from dfs_push_measure [OF 3(1) _ this, of seen] 3 show ?case by simp
next
  case (4 s stack seen acc current rest seen' r acc1 neighbors unvisitedNeighbors)
  from dfs_push_measure [OF 4(1), of seen "[]" "adj s"] 4 show ?case by simp
qed

declare dfsLoop.simps [simp del]


subsection \<open>Dijkstra\<close>

text \<open>
  The scan for the node of smallest distance: the first node of the queue, replaced
  by a later one only when that one's distance is strictly smaller.
\<close>

definition pickMin :: "(nat \<times> enat) list \<Rightarrow> nat list \<Rightarrow> nat option" where
  "pickMin distMap queue =
     fold (\<lambda>nodeId minNode.
             (case minNode of None \<Rightarrow> Some nodeId
              | Some m \<Rightarrow> if lessNum (map_of distMap nodeId) (map_of distMap m) then Some nodeId
                          else Some m))
       queue None"

text \<open>
  \<^verbatim>\<open>Array.from(dist.keys()).filter(k => !queue.includes(k) && dist.get(k) < Infinity)\<close>
\<close>

definition visitedOf :: "nat list \<Rightarrow> (nat \<times> enat) list \<Rightarrow> nat list" where
  "visitedOf queue distMap =
     filter (\<lambda>k. k \<notin> set queue \<and> lessNum (map_of distMap k) (Some \<infinity>)) (map fst distMap)"

text \<open>
  The walk along \<^verbatim>\<open>prev\<close> from the goal: \<^verbatim>\<open>while (current !== null)\<close>. Here
  \<open>Some None\<close> is a stored \<^verbatim>\<open>null\<close>. A node with no entry reads as
  \<^verbatim>\<open>undefined\<close>, which is not \<^verbatim>\<open>null\<close> and has no entry either, so the loop never
  ends; nor does it end on a cycle, which is what running out of \<open>fuel\<close> means when
  the fuel is the number of entries.
\<close>

fun walkBack :: "nat \<Rightarrow> (nat \<times> nat option) list \<Rightarrow> nat option \<Rightarrow> nat list \<Rightarrow> nat list option" where
  "walkBack fuel prev None pathAcc = Some pathAcc"
| "walkBack 0 prev (Some current) pathAcc = None"
| "walkBack (Suc fuel) prev (Some current) pathAcc =
     (case map_of prev current of
        None \<Rightarrow> None
      | Some p \<Rightarrow> walkBack fuel prev p (current # pathAcc))"

definition dijkstraStep :: "description \<Rightarrow> nat list \<Rightarrow> nat list \<Rightarrow> (nat \<times> enat) list \<Rightarrow> step" where
  "dijkstraStep d queue p distMap =
     \<lparr> desc = d, ds = queue, visited = visitedOf queue distMap, path = p,
       distances = Some distMap, gScores = None, fScores = None \<rparr>"

text \<open>The body of \<^verbatim>\<open>for (const neighbor of neighbors)\<close>.\<close>

definition relax :: "nat \<Rightarrow> nat list \<Rightarrow> nat \<times> nat
    \<Rightarrow> (nat \<times> enat) list \<times> (nat \<times> nat option) list \<times> step list
    \<Rightarrow> (nat \<times> enat) list \<times> (nat \<times> nat option) list \<times> step list" where
  "relax minNode queue neighbor st =
     (case st of (distMap, prev, acc) \<Rightarrow>
        if fst neighbor \<in> set queue
        then (case map_of distMap minNode of
                None \<Rightarrow> st
              | Some dm \<Rightarrow>
                  (let alt = dm + enat (snd neighbor)
                   in if lessNum (Some alt) (map_of distMap (fst neighbor))
                      then (let distMap' = AList.update (fst neighbor) alt distMap;
                                prev' = AList.update (fst neighbor) (Some minNode) prev
                            in (distMap', prev',
                                acc @ [dijkstraStep (UpdatedDistance (fst neighbor) alt)
                                         queue [] distMap']))
                      else st))
        else st)"

lemma pickMin_in_queue: "pickMin distMap queue = Some m \<Longrightarrow> m \<in> set queue"
proof -
  have "fold (\<lambda>nodeId minNode.
             (case minNode of None \<Rightarrow> Some nodeId
              | Some m \<Rightarrow> if lessNum (map_of distMap nodeId) (map_of distMap m) then Some nodeId
                          else Some m)) queue acc = Some m
        \<Longrightarrow> m \<in> set queue \<or> acc = Some m" for acc
    by (induction queue arbitrary: acc) (fastforce split: option.splits if_splits)+
  then show "pickMin distMap queue = Some m \<Longrightarrow> m \<in> set queue"
    unfolding pickMin_def by blast
qed

text \<open>
  \<^verbatim>\<open>while (queue.length > 0)\<close> of \<^verbatim>\<open>prepareDijkstra\<close>. \<open>goal\<close> is
  \<^verbatim>\<open>state.goalNode\<close>. The result is the final distance map and the steps pushed.
\<close>

function dijkstraLoop :: "state \<Rightarrow> nat list \<Rightarrow> (nat \<times> enat) list \<Rightarrow> (nat \<times> nat option) list
    \<Rightarrow> step list \<Rightarrow> error + (nat \<times> enat) list \<times> step list" where
  "dijkstraLoop s queue distMap prev acc =
     (case pickMin distMap queue of
        None \<Rightarrow> Inr (distMap, acc)
      | Some minNode \<Rightarrow>
          (let queue' = remove1 minNode queue
           in case findNode s minNode of
                None \<Rightarrow> Inl TypeError
              | Some r \<Rightarrow>
                  (let acc1 = acc @ [dijkstraStep
                         (VisitingWithDistance (labelOrId (obj s r)) (map_of distMap minNode))
                         queue' [] distMap]
                   in case goalNode s of
                        None \<Rightarrow> Inl TypeError
                      | Some g \<Rightarrow>
                          if minNode = nid (obj s g)
                          then (case walkBack (length prev) prev (Some minNode) [] of
                                  None \<Rightarrow> Inl Loops
                                | Some p \<Rightarrow>
                                    Inr (distMap, acc1 @ [dijkstraStep
                                      (FoundShortestPath (map_of distMap minNode)) queue' p distMap]))
                          else (case fold (relax minNode queue') (adjGet (adj s) minNode)
                                       (distMap, prev, acc1) of
                                  (distMap', prev', acc2) \<Rightarrow>
                                    dijkstraLoop s queue' distMap' prev' acc2))))"
  by pat_completeness auto
termination
proof (relation "measure (\<lambda>(s, queue, distMap, prev, acc). length queue)")
  show "wf (measure (\<lambda>(s, queue, distMap, prev, acc). length queue))" by simp
next
  fix s :: state and queue :: "nat list" and distMap :: "(nat \<times> enat) list" and minNode queue'
  assume "pickMin distMap queue = Some minNode" and "queue' = remove1 minNode queue"
  then have "length queue' < length queue"
    using pickMin_in_queue [of distMap queue minNode] by (simp add: length_remove1) (cases queue; auto)
  then show "\<And>prev acc x2 x z xa ya xb yb.
       ((s, queue', xa, xb, yb), (s, queue, distMap, prev, acc))
       \<in> measure (\<lambda>(s, queue, distMap, prev, acc). length queue)"
    by simp
qed

declare dijkstraLoop.simps [simp del]

text \<open>\<^verbatim>\<open>prepareDijkstra\<close>: the steps it leaves in \<^verbatim>\<open>state.steps\<close>.\<close>

definition prepareDijkstra :: "state \<Rightarrow> error + step list" where
  "prepareDijkstra s =
     (case startNode s of
        None \<Rightarrow> Inl TypeError
      | Some st \<Rightarrow>
          (let ids = map (\<lambda>r. nid (obj s r)) (nodes s);
               distMap = fold (\<lambda>i d. AList.update i (if i = nid (obj s st) then 0 else \<infinity>) d) ids [];
               prev = fold (\<lambda>i p. AList.update i None p) ids [];
               queue = ids;
               acc = [\<lparr> desc = StartingDijkstra (labelOrId (obj s st)), ds = queue,
                        visited = [], path = [], distances = Some distMap,
                        gScores = None, fScores = None \<rparr>]
           in case dijkstraLoop s queue distMap prev acc of
                Inl e \<Rightarrow> Inl e
              | Inr (distMap', acc') \<Rightarrow>
                  Inr (acc' @ [\<lparr> desc = DijkstraCompleted, ds = [],
                         visited = filter (\<lambda>k. lessNum (map_of distMap' k) (Some \<infinity>)) (map fst distMap'),
                         path = [], distances = Some distMap', gScores = None, fScores = None \<rparr>])))"

subsection \<open>A*\<close>

definition lessScore :: "score option \<Rightarrow> score option \<Rightarrow> bool" where
  "lessScore a b =
     (case (a, b) of
        (Some (Finite x), Some (Finite y)) \<Rightarrow> x < y
      | (Some (Finite x), Some Infinity) \<Rightarrow> True
      | _ \<Rightarrow> False)"

definition plusScore :: "enat \<Rightarrow> real \<Rightarrow> score" where
  "plusScore g h = (case g of enat n \<Rightarrow> Finite (real n + h) | \<infinity> \<Rightarrow> Infinity)"

text \<open>
  The heuristic: the straight-line distance to the goal divided by 50, and 0 when the
  node or the goal is missing.
\<close>

definition heuristic :: "state \<Rightarrow> nat \<Rightarrow> real" where [code del]:
  "heuristic s nodeId =
     (case (findNode s nodeId, goalNode s) of
        (Some r, Some g) \<Rightarrow>
          sqrt ((nx (obj s r) - nx (obj s g))\<^sup>2 + (ny (obj s r) - ny (obj s g))\<^sup>2) / 50
      | _ \<Rightarrow> 0)"

text \<open>
  \<^verbatim>\<open>Object.keys(gScore).filter(k => gScore[k] < Infinity).map(Number)\<close>: the keys of
  an object that are array indices come in ascending order.
\<close>

definition finiteKeys :: "(nat \<times> enat) list \<Rightarrow> nat list" where
  "finiteKeys gScore = filter (\<lambda>k. lessNum (map_of gScore k) (Some \<infinity>)) (sort (map fst gScore))"

definition astarStep :: "description \<Rightarrow> nat list \<Rightarrow> nat list \<Rightarrow> nat list
    \<Rightarrow> (nat \<times> enat) list \<Rightarrow> (nat \<times> score) list \<Rightarrow> step" where
  "astarStep d openSet seen p gScore fScore =
     \<lparr> desc = d, ds = openSet, visited = seen, path = p,
       distances = None, gScores = Some gScore, fScores = Some fScore \<rparr>"

text \<open>The scan for the node of lowest \<^verbatim>\<open>fScore\<close>, starting from \<^verbatim>\<open>openSet[0]\<close>.\<close>

definition pickLowest :: "(nat \<times> score) list \<Rightarrow> nat \<Rightarrow> nat list \<Rightarrow> nat" where
  "pickLowest fScore first openSet =
     fold (\<lambda>nodeId current.
             if lessScore (map_of fScore nodeId) (map_of fScore current) then nodeId else current)
       openSet first"

text \<open>
  \<^verbatim>\<open>while (cameFrom[current] !== undefined)\<close>: the walk ends at a node with no entry;
  on a cycle it never ends, which is what running out of \<open>fuel\<close> means when the fuel
  is the number of entries.
\<close>

fun walkCameFrom :: "nat \<Rightarrow> (nat \<times> nat) list \<Rightarrow> nat \<Rightarrow> nat list \<Rightarrow> nat list option" where
  "walkCameFrom fuel cameFrom current pathAcc =
     (case map_of cameFrom current of
        None \<Rightarrow> Some pathAcc
      | Some p \<Rightarrow>
          (case fuel of 0 \<Rightarrow> None | Suc fuel' \<Rightarrow> walkCameFrom fuel' cameFrom p (p # pathAcc)))"

declare walkCameFrom.simps [simp del]

text \<open>The body of \<^verbatim>\<open>for (const neighbor of neighbors)\<close> in \<^verbatim>\<open>prepareAStar\<close>.\<close>

definition astarRelax :: "state \<Rightarrow> nat \<Rightarrow> nat list \<Rightarrow> nat \<times> nat
    \<Rightarrow> nat list \<times> (nat \<times> enat) list \<times> (nat \<times> score) list \<times> (nat \<times> nat) list \<times> step list
    \<Rightarrow> nat list \<times> (nat \<times> enat) list \<times> (nat \<times> score) list \<times> (nat \<times> nat) list \<times> step list" where
  "astarRelax s current visitedNodes neighbor st =
     (case st of (openSet, gScore, fScore, cameFrom, acc) \<Rightarrow>
        (case map_of gScore current of
           None \<Rightarrow> st
         | Some gc \<Rightarrow>
             (let tentativeGScore = gc + enat (snd neighbor)
              in if lessNum (Some tentativeGScore) (map_of gScore (fst neighbor))
                 then (let cameFrom' = AList.update (fst neighbor) current cameFrom;
                           gScore' = AList.update (fst neighbor) tentativeGScore gScore;
                           f = plusScore tentativeGScore (heuristic s (fst neighbor));
                           fScore' = AList.update (fst neighbor) f fScore;
                           openSet' = (if fst neighbor \<notin> set openSet
                                       then openSet @ [fst neighbor] else openSet)
                       in (openSet', gScore', fScore', cameFrom',
                           acc @ [astarStep (UpdatedScores (fst neighbor) tentativeGScore f)
                                    openSet' visitedNodes [] gScore' fScore']))
                 else st)))"

text \<open>
  Why the loop ends: every update of \<^verbatim>\<open>gScore\<close> lowers one entry, either from
  \<^verbatim>\<open>Infinity\<close> to a number or from a number to a smaller one.
\<close>

definition infiniteEntries :: "(nat \<times> enat) list \<Rightarrow> nat" where
  "infiniteEntries gScore = length (filter (\<lambda>e. snd e = \<infinity>) gScore)"

definition finiteSum :: "(nat \<times> enat) list \<Rightarrow> nat" where
  "finiteSum gScore = sum_list (map (\<lambda>e. case snd e of enat n \<Rightarrow> n | \<infinity> \<Rightarrow> 0) gScore)"

definition lowered :: "(nat \<times> enat) list \<Rightarrow> (nat \<times> enat) list \<Rightarrow> bool" where
  "lowered g' g = (infiniteEntries g' < infiniteEntries g \<or>
     (infiniteEntries g' = infiniteEntries g \<and> finiteSum g' < finiteSum g))"

lemma lowered_trans: "lowered a b \<Longrightarrow> lowered b c \<Longrightarrow> lowered a c"
  by (auto simp: lowered_def)

lemma update_lowered:
  assumes "map_of g k = Some old" and "v < old"
  shows "lowered (AList.update k v g) g"
  using assms
proof (induction g)
  case Nil
  then show ?case by simp
next
  case (Cons e g)
  obtain k' w where e: "e = (k', w)" by (cases e)
  show ?case
  proof (cases "k' = k")
    case True
    with Cons.prems e have w: "w = old" by simp
    from Cons.prems(2) obtain n where n: "v = enat n" by (cases v) auto
    show ?thesis
    proof (cases old)
      case (enat m)
      with n Cons.prems(2) have "n < m" by simp
      with True e w n enat show ?thesis
        by (simp add: lowered_def infiniteEntries_def finiteSum_def)
    next
      case infinity
      with True e w n show ?thesis
        by (simp add: lowered_def infiniteEntries_def finiteSum_def)
    qed
  next
    case False
    with Cons.prems e have "map_of g k = Some old" by simp
    from Cons.IH [OF this Cons.prems(2)] False e show ?thesis
      by (auto simp: lowered_def infiniteEntries_def finiteSum_def)
  qed
qed

lemma astarRelax_lowered:
  assumes "astarRelax s current vn neighbor (os, g, f, cf, acc) = (os', g', f', cf', acc')"
  shows "(os' = os \<and> g' = g) \<or> lowered g' g"
proof (cases "map_of g current")
  case None
  with assms show ?thesis by (simp add: astarRelax_def)
next
  case (Some gc)
  show ?thesis
  proof (cases "lessNum (Some (gc + enat (snd neighbor))) (map_of g (fst neighbor))")
    case False
    with assms Some show ?thesis by (simp add: astarRelax_def)
  next
    case True
    then obtain old where old: "map_of g (fst neighbor) = Some old" "gc + enat (snd neighbor) < old"
      by (cases "map_of g (fst neighbor)") (auto simp: lessNum_def)
    from assms Some True have "g' = AList.update (fst neighbor) (gc + enat (snd neighbor)) g"
      by (auto simp: astarRelax_def Let_def)
    with update_lowered [OF old] show ?thesis by simp
  qed
qed

lemma fold_astarRelax_lowered:
  assumes "fold (astarRelax s current vn) ns (os, g, f, cf, acc) = (os', g', f', cf', acc')"
  shows "(os' = os \<and> g' = g) \<or> lowered g' g"
  using assms
proof (induction ns arbitrary: os g f cf acc)
  case Nil
  then show ?case by simp
next
  case (Cons n ns)
  obtain os1 g1 f1 cf1 acc1
    where r: "astarRelax s current vn n (os, g, f, cf, acc) = (os1, g1, f1, cf1, acc1)"
    by (cases "astarRelax s current vn n (os, g, f, cf, acc)") auto
  from Cons.prems r
  have "fold (astarRelax s current vn) ns (os1, g1, f1, cf1, acc1) = (os', g', f', cf', acc')"
    by simp
  from Cons.IH [OF this] astarRelax_lowered [OF r] show ?case
    by (auto intro: lowered_trans)
qed

lemma pickLowest_in_openSet: "pickLowest fScore first openSet \<in> insert first (set openSet)"
  unfolding pickLowest_def by (induction openSet arbitrary: first) auto

text \<open>
  \<^verbatim>\<open>while (openSet.length > 0)\<close> of \<^verbatim>\<open>prepareAStar\<close>. The result is the final
  \<^verbatim>\<open>gScore\<close> and \<^verbatim>\<open>fScore\<close> and the steps pushed.
\<close>

function astarLoop :: "state \<Rightarrow> nat list \<Rightarrow> (nat \<times> enat) list \<Rightarrow> (nat \<times> score) list
    \<Rightarrow> (nat \<times> nat) list \<Rightarrow> step list
    \<Rightarrow> error + (nat \<times> enat) list \<times> (nat \<times> score) list \<times> step list" where
  "astarLoop s openSet gScore fScore cameFrom acc =
     (case openSet of
        [] \<Rightarrow> Inr (gScore, fScore, acc)
      | first # others \<Rightarrow>
          (let current = pickLowest fScore first openSet
           in case goalNode s of
                None \<Rightarrow> Inl TypeError
              | Some g \<Rightarrow>
                  if current = nid (obj s g)
                  then (case walkCameFrom (length cameFrom) cameFrom current [current] of
                          None \<Rightarrow> Inl Loops
                        | Some p \<Rightarrow>
                            Inr (gScore, fScore,
                                 acc @ [astarStep (FoundPath (map_of gScore (nid (obj s g))))
                                          openSet (finiteKeys gScore) p gScore fScore]))
                  else
                    (let openSet' = remove1 current openSet;
                         visitedNodes = finiteKeys gScore
                     in case map_of fScore current of
                          None \<Rightarrow> Inl TypeError
                        | Some fc \<Rightarrow>
                            (case fold (astarRelax s current visitedNodes)
                                    (adjGet (adj s) current)
                                    (openSet', gScore, fScore, cameFrom,
                                     acc @ [astarStep (VisitingWithFScore current fc)
                                              openSet' visitedNodes [] gScore fScore]) of
                               (openSet'', gScore', fScore', cameFrom', acc') \<Rightarrow>
                                 astarLoop s openSet'' gScore' fScore' cameFrom' acc'))))"
  by pat_completeness auto
termination
proof (relation "measures [\<lambda>(s, openSet, gScore, fScore, cameFrom, acc). infiniteEntries gScore,
                           \<lambda>(s, openSet, gScore, fScore, cameFrom, acc). finiteSum gScore,
                           \<lambda>(s, openSet, gScore, fScore, cameFrom, acc). length openSet]",
       goal_cases)
  case 1
  show ?case by simp
next
  case (2 s openSet gScore fScore cameFrom acc first others current g openSet' visitedNodes fc
          openSet'' y gScore' z fScore' w cameFrom' acc')
  then have f: "fold (astarRelax s current visitedNodes) (adjGet (adj s) current)
       (openSet', gScore, fScore, cameFrom,
        acc @ [astarStep (VisitingWithFScore current fc) openSet' visitedNodes [] gScore fScore])
      = (openSet'', gScore', fScore', cameFrom', acc')"
    by simp
  have "current \<in> set openSet"
    using pickLowest_in_openSet [of fScore first openSet] 2(1,2) by auto
  then have "length openSet' < length openSet"
    unfolding \<open>openSet' = remove1 current openSet\<close>
    by (simp add: length_remove1) (metis length_pos_if_in_set Suc_pred lessI)
  with fold_astarRelax_lowered [OF f] show ?case
    by (auto simp: lowered_def)
qed

declare astarLoop.simps [simp del]

text \<open>\<^verbatim>\<open>prepareAStar\<close>: the steps it leaves in \<^verbatim>\<open>state.steps\<close>.\<close>

definition prepareAStar :: "state \<Rightarrow> error + step list" where
  "prepareAStar s =
     (case startNode s of
        None \<Rightarrow> Inl TypeError
      | Some st \<Rightarrow>
          (let start = nid (obj s st);
               ids = map (\<lambda>r. nid (obj s r)) (nodes s);
               gScore = fold (\<lambda>i g. AList.update i (if i = start then 0 else \<infinity>) g) ids [];
               fScore = fold (\<lambda>i f. AList.update i
                          (if i = start then Finite (heuristic s start) else Infinity) f) ids [];
               openSet = [start];
               acc = [astarStep (StartingAStar (labelOrId (obj s st))) openSet [] [] gScore fScore]
           in case astarLoop s openSet gScore fScore [] acc of
                Inl e \<Rightarrow> Inl e
              | Inr (gScore', fScore', acc') \<Rightarrow>
                  Inr (acc' @ [astarStep AStarCompleted [] (finiteKeys gScore') []
                                 gScore' fScore'])))"

text \<open>The generators that only leave one step saying they are not implemented.\<close>

definition notImplemented :: "string \<Rightarrow> step list" where
  "notImplemented what = [\<lparr> desc = NotImplemented what, ds = [], visited = [], path = [],
     distances = None, gScores = None, fScores = None \<rparr>]"

text \<open>\<^verbatim>\<open>prepareBFS\<close> and \<^verbatim>\<open>prepareDFS\<close>: the steps they leave in \<^verbatim>\<open>state.steps\<close>.\<close>

definition prepareBFS :: "state \<Rightarrow> error + step list" where
  "prepareBFS s =
     (case startNode s of
        None \<Rightarrow> Inl TypeError
      | Some st \<Rightarrow>
          (let start = nid (obj s st);
               acc = [plainStep (StartingBFS (labelOrId (obj s st))) [start] [start]]
           in case bfsLoop s [start] [start] acc of
                Inl e \<Rightarrow> Inl e
              | Inr (seen, acc') \<Rightarrow> Inr (acc' @ [plainStep BFSCompleted [] seen])))"

definition prepareDFS :: "state \<Rightarrow> error + step list" where
  "prepareDFS s =
     (case startNode s of
        None \<Rightarrow> Inl TypeError
      | Some st \<Rightarrow>
          (let start = nid (obj s st);
               acc = [plainStep (StartingDFS (labelOrId (obj s st))) [start] []]
           in case dfsLoop s [start] [] acc of
                Inl e \<Rightarrow> Inl e
              | Inr (seen, acc') \<Rightarrow> Inr (acc' @ [plainStep DFSCompleted [] seen])))"

definition generate :: "algo \<Rightarrow> state \<Rightarrow> error + step list" where
  "generate a s =
     (case a of
        BFS \<Rightarrow> prepareBFS s
      | DFS \<Rightarrow> prepareDFS s
      | Dijkstra \<Rightarrow> prepareDijkstra s
      | AStar \<Rightarrow> prepareAStar s
      | Prim \<Rightarrow> Inr (notImplemented ''Prim's algorithm'')
      | Kruskal \<Rightarrow> Inr (notImplemented ''Kruskal's algorithm'')
      | BellmanFord \<Rightarrow> Inr (notImplemented ''Bellman-Ford algorithm'')
      | FloydWarshall \<Rightarrow> Inr (notImplemented ''Floyd-Warshall algorithm'')
      | Topological \<Rightarrow> Inr (notImplemented ''Topological sort'')
      | ConnectedComponents \<Rightarrow> Inr (notImplemented ''Connected components algorithm''))"

section \<open>Playback\<close>

text \<open>
  \<^verbatim>\<open>showStep(index)\<close>: the highlight projection. Every node gets the start colour,
  the goal colour or no colour; every edge loses its colour; then the visited nodes,
  the nodes of the data structure and the nodes of the path are coloured in that
  order (never the start or the goal node), and the first edge between two consecutive
  path nodes, in either direction, becomes the active edge.
\<close>

definition resetNodeColor :: "nat \<Rightarrow> state \<Rightarrow> state" where
  "resetNodeColor r s =
     (if startNode s = Some r then setColor r (Some COLORS_START) s
      else if goalNode s = Some r then setColor r (Some COLORS_GOAL) s
      else setColor r None s)"

definition colorNode :: "string \<Rightarrow> nat \<Rightarrow> state \<Rightarrow> state" where
  "colorNode c nodeId s =
     (case findNode s nodeId of
        None \<Rightarrow> s
      | Some r \<Rightarrow> if startNode s \<noteq> Some r \<and> goalNode s \<noteq> Some r then setColor r (Some c) s
                  else s)"

fun markEdge :: "nat \<Rightarrow> nat \<Rightarrow> edge list \<Rightarrow> edge list" where
  "markEdge f t [] = []"
| "markEdge f t (e # es) =
     (if (efrom e = f \<and> eto e = t) \<or> (efrom e = t \<and> eto e = f)
      then e\<lparr>ecolor := Some COLORS_ACTIVE_EDGE\<rparr> # es
      else e # markEdge f t es)"

fun colorPathEdges :: "nat list \<Rightarrow> edge list \<Rightarrow> edge list" where
  "colorPathEdges (a # b # rest) es = colorPathEdges (b # rest) (markEdge a b es)"
| "colorPathEdges _ es = es"

definition showStep :: "int \<Rightarrow> state \<Rightarrow> state" where
  "showStep i s =
     (case index (steps s) i of
        None \<Rightarrow> s
      | Some st \<Rightarrow>
          (let s1 = s\<lparr>stepIndex := nat i\<rparr>;
               s2 = fold resetNodeColor (nodes s1) s1;
               s3 = s2\<lparr>edges := map (\<lambda>e. e\<lparr>ecolor := None\<rparr>) (edges s2)\<rparr>;
               s4 = fold (colorNode COLORS_VISITED) (visited st) s3;
               s5 = fold (colorNode COLORS_VISITING) (ds st) s4
           in if path st \<noteq> []
              then (let s6 = fold (colorNode COLORS_PATH) (path st) s5
                    in s6\<lparr>edges := colorPathEdges (path st) (edges s6)\<rparr>)
              else s5))"

text \<open>
  \<^verbatim>\<open>prepareAlgo\<close>: the two alerts are the errors \<open>MissingStart\<close> and
  \<open>MissingGoal\<close>; otherwise the generator of the selected algorithm fills
  \<^verbatim>\<open>state.steps\<close>, the cursor goes to 0 and the first step is shown. The timer is
  not touched.
\<close>

definition prepareAlgo :: "state \<Rightarrow> error + state" where
  "prepareAlgo s =
     (if startNode s = None then Inl MissingStart
      else if (currentAlgo s = AStar \<or> currentAlgo s = Dijkstra \<or> currentAlgo s = BellmanFord)
              \<and> goalNode s = None then Inl MissingGoal
      else (case generate (currentAlgo s) s of
              Inl e \<Rightarrow> Inl e
            | Inr trace \<Rightarrow>
                (let s1 = s\<lparr>steps := trace, stepIndex := 0\<rparr>
                 in Inr (if length (steps s1) > 0 then showStep 0 s1 else s1))))"

text \<open>
  \<^verbatim>\<open>if (state.steps.length === 0) prepareAlgo();\<close> as \<^verbatim>\<open>nextStep\<close> and \<^verbatim>\<open>play\<close>
  begin: after an alert \<^verbatim>\<open>prepareAlgo\<close> has returned and the caller goes on with the
  state as it was; an exception ends the caller too.
\<close>

definition prepareIfEmpty :: "state \<Rightarrow> error + state" where
  "prepareIfEmpty s =
     (if steps s = [] then
        (case prepareAlgo s of
           Inl MissingStart \<Rightarrow> Inr s
         | Inl MissingGoal \<Rightarrow> Inr s
         | r \<Rightarrow> r)
      else Inr s)"

definition advance :: "state \<Rightarrow> bool" where
  "advance s = (int (stepIndex s) < int (length (steps s)) - 1)"

definition nextStep :: "state \<Rightarrow> error + state" where
  "nextStep s =
     (case prepareIfEmpty s of
        Inl e \<Rightarrow> Inl e
      | Inr s1 \<Rightarrow> Inr (if advance s1 then showStep (int (stepIndex s1) + 1) s1 else s1))"

definition prevStep :: "state \<Rightarrow> state" where
  "prevStep s =
     (if length (steps s) > 0 \<and> stepIndex s > 0 then showStep (int (stepIndex s) - 1) s else s)"

text \<open>
  \<^verbatim>\<open>clearInterval(state.intervalId)\<close> takes the timer away from the browser, and
  \<^verbatim>\<open>setInterval\<close> starts one under a handle never used before.
\<close>

definition clearInterval :: "nat option \<Rightarrow> state \<Rightarrow> state" where
  "clearInterval h s = (case h of None \<Rightarrow> s | Some t \<Rightarrow> s\<lparr>liveTimers := liveTimers s - {t}\<rparr>)"

definition play :: "state \<Rightarrow> error + state" where
  "play s =
     (case prepareIfEmpty s of
        Inl e \<Rightarrow> Inl e
      | Inr s1 \<Rightarrow>
          (let s2 = (if intervalId s1 \<noteq> None then clearInterval (intervalId s1) s1 else s1);
               t = timerCount s2
           in Inr (s2\<lparr>intervalId := Some t, liveTimers := insert t (liveTimers s2),
                      timerCount := Suc t\<rparr>)))"

definition pause :: "state \<Rightarrow> state" where
  "pause s =
     (if intervalId s \<noteq> None then (clearInterval (intervalId s) s)\<lparr>intervalId := None\<rparr> else s)"

definition togglePlayPause :: "state \<Rightarrow> error + state" where
  "togglePlayPause s = (if intervalId s \<noteq> None then Inr (pause s) else play s)"

text \<open>
  The callback \<^verbatim>\<open>play\<close> hands to \<^verbatim>\<open>setInterval\<close>, run by the browser for a timer
  that is live.
\<close>

definition tick :: "state \<Rightarrow> state" where
  "tick s =
     (if advance s then showStep (int (stepIndex s) + 1) s
      else (clearInterval (intervalId s) s)\<lparr>intervalId := None\<rparr>)"

text \<open>\<^verbatim>\<open>resetVisualization\<close> and \<^verbatim>\<open>clearCanvas\<close> (after the user has confirmed).\<close>

definition stopTimer :: "state \<Rightarrow> state" where
  "stopTimer s =
     (if intervalId s \<noteq> None then (clearInterval (intervalId s) s)\<lparr>intervalId := None\<rparr> else s)"

definition resetVisualization :: "state \<Rightarrow> state" where
  "resetVisualization s =
     (let s1 = stopTimer (s\<lparr>steps := [], stepIndex := 0\<rparr>);
          s2 = fold resetNodeColor (nodes s1) s1
      in s2\<lparr>edges := map (\<lambda>e. e\<lparr>ecolor := None\<rparr>) (edges s2)\<rparr>)"

definition clearCanvas :: "state \<Rightarrow> state" where
  "clearCanvas s =
     saveState (stopTimer (s\<lparr>nodes := [], edges := [], adj := [], startNode := None,
       goalNode := None, steps := [], stepIndex := 0, selectedNodes := {},
       searchResults := {}\<rparr>))"

section \<open>Import\<close>

text \<open>
  The document \<^verbatim>\<open>importGraph\<close> reads, already parsed: nodes \<^verbatim>\<open>{ id, label, x, y }\<close>,
  edges \<^verbatim>\<open>{ from, to, weight }\<close>, \<^verbatim>\<open>directed\<close>, and \<^verbatim>\<open>start\<close> and \<^verbatim>\<open>goal\<close>
  (\<open>None\<close> for \<^verbatim>\<open>null\<close> or a missing property).
\<close>

record graphData =
  dnodes :: "(nat \<times> string \<times> real \<times> real) list"
  dedges :: "(nat \<times> nat \<times> nat) list"
  ddirected :: bool
  dstart :: "nat option"
  dgoal :: "nat option"

definition importNode :: "nat \<times> string \<times> real \<times> real \<Rightarrow> state \<Rightarrow> state" where
  "importNode n s =
     (case n of (i, l, x, y) \<Rightarrow>
        s\<lparr>heap := heap s @ [\<lparr> nid = i, nx = x, ny = y, nlabel = l, ncolor = None \<rparr>],
          nodes := nodes s @ [length (heap s)],
          adj := AList.update i [] (adj s)\<rparr>)"

definition importEdge :: "bool \<Rightarrow> nat \<times> nat \<times> nat \<Rightarrow> state \<Rightarrow> state" where
  "importEdge dir ed s =
     (case ed of (f, t, w) \<Rightarrow>
        (let s1 = s\<lparr>edges := edges s @ [\<lparr> efrom = f, eto = t, eweight = w, ecolor = None \<rparr>]\<rparr>;
             s2 = s1\<lparr>adj := adjPush f (t, w) (adj s1)\<rparr>
         in if \<not> dir then s2\<lparr>adj := adjPush t (f, w) (adj s2)\<rparr> else s2))"

text \<open>
  \<^verbatim>\<open>importGraph\<close>, the \<^verbatim>\<open>onload\<close> callback on a well-formed document. The nodes, the
  edges, the adjacency map and the two selections are cleared; \<^verbatim>\<open>state.startNode\<close>
  and \<^verbatim>\<open>state.goalNode\<close> are written only when the document names a start or a goal
  that is among the imported nodes.
\<close>

definition importGraph :: "graphData \<Rightarrow> state \<Rightarrow> state" where
  "importGraph d s =
     (let s1 = s\<lparr>nodes := [], edges := [], adj := [], selectedNodes := {}, searchResults := {}\<rparr>;
          s2 = fold importNode (dnodes d) s1;
          s3 = fold (importEdge (ddirected d)) (dedges d) s2;
          s4 = s3\<lparr>directed := ddirected d\<rparr>;
          s5 = (case dstart d of None \<Rightarrow> s4
                | Some i \<Rightarrow> (case findNode s4 i of None \<Rightarrow> s4
                             | Some r \<Rightarrow> setStartNode (Some r) s4));
          s6 = (case dgoal d of None \<Rightarrow> s5
                | Some i \<Rightarrow> (case findNode s5 i of None \<Rightarrow> s5
                             | Some r \<Rightarrow> setGoalNode (Some r) s5))
      in saveState s6)"

section \<open>Sessions\<close>

text \<open>
  What the user and the browser can do, one constructor for each handler that the
  properties below are about (renaming and dragging a node, the layouts, the search,
  the multi-selection and the random generator are left out). A node is named by its
  position in \<^verbatim>\<open>state.nodes\<close> and an edge by its position in
  \<^verbatim>\<open>state.edges\<close>, since a click can only hit an object of these arrays; a click that
  hits nothing does nothing. \<open>EdgeClick\<close> is a click on a node in add-edge mode: the
  first one selects the source, the next one calls \<^verbatim>\<open>addEdge\<close> when the two nodes
  have different ids (with the state of the \<^verbatim>\<open>random-weight\<close> box, the random draw
  and the answer to the prompt, which only that second click uses).
\<close>

datatype event =
    AddNode "real \<times> real"
  | EdgeClick bool nat "nat list option" nat
  | DeleteNode nat
  | DeleteEdge nat
  | EditWeight nat "nat list option"
  | SetStart nat
  | SetGoal nat
  | Undo
  | Redo
  | Import graphData
  | ClearCanvas
  | ResetVisualization
  | SelectAlgo algo
  | NextStep
  | PrevStep
  | Play
  | Pause
  | ChangeSpeed
  | Tick

definition clicked :: "state \<Rightarrow> nat \<Rightarrow> nat option" where
  "clicked s k = index (nodes s) (int k)"

definition fire :: "event \<Rightarrow> state \<Rightarrow> error + state" where
  "fire ev s =
     (case ev of
        AddNode pos \<Rightarrow> Inr (addNode pos s)
      | EdgeClick rw rnd input k \<Rightarrow>
          (case clicked s k of
             None \<Rightarrow> Inr s
           | Some c \<Rightarrow>
               (case selectedEdgeStart s of
                  None \<Rightarrow> Inr (s\<lparr>selectedEdgeStart := Some c\<rparr>)
                | Some f \<Rightarrow>
                    if nid (obj s f) \<noteq> nid (obj s c) then addEdge rw rnd input f c s
                    else Inr s))
      | DeleteNode k \<Rightarrow> (case clicked s k of None \<Rightarrow> Inr s | Some r \<Rightarrow> Inr (deleteNode r s))
      | DeleteEdge k \<Rightarrow> if k < length (edges s) then Inr (deleteEdge k s) else Inr s
      | EditWeight k input \<Rightarrow> if k < length (edges s) then handleClickEdge k input s else Inr s
      | SetStart k \<Rightarrow> (case clicked s k of None \<Rightarrow> Inr s | Some r \<Rightarrow> Inr (setStartNode (Some r) s))
      | SetGoal k \<Rightarrow> (case clicked s k of None \<Rightarrow> Inr s | Some r \<Rightarrow> Inr (setGoalNode (Some r) s))
      | Undo \<Rightarrow> undo s
      | Redo \<Rightarrow> redo s
      | Import d \<Rightarrow> Inr (importGraph d s)
      | ClearCanvas \<Rightarrow> Inr (clearCanvas s)
      | ResetVisualization \<Rightarrow> Inr (resetVisualization s)
      | SelectAlgo a \<Rightarrow> Inr (s\<lparr>currentAlgo := a\<rparr>)
      | NextStep \<Rightarrow> nextStep s
      | PrevStep \<Rightarrow> Inr (prevStep s)
      | Play \<Rightarrow> play s
      | Pause \<Rightarrow> Inr (pause s)
      | ChangeSpeed \<Rightarrow> if intervalId s \<noteq> None then play (pause s) else Inr s
      | Tick \<Rightarrow> if liveTimers s \<noteq> {} then Inr (tick s) else Inr s)"

text \<open>
  A session: the events one after the other from a state. A handler that ends with an
  alert or a cancelled prompt has changed nothing, and the session goes on; the
  session is not followed past an exception, a loop that never ends or a weight
  \<^verbatim>\<open>Infinity\<close> (\<open>None\<close>).
\<close>

fun run :: "event list \<Rightarrow> state \<Rightarrow> state option" where
  "run [] s = Some s"
| "run (ev # evs) s =
     (case fire ev s of
        Inr s' \<Rightarrow> run evs s'
      | Inl e \<Rightarrow> if e = TypeError \<or> e = Loops \<or> e = InfiniteWeight then None
                 else run evs s)"

text \<open>
  What a session leaves, for stating its outcome: the ids of the nodes in
  \<^verbatim>\<open>state.nodes\<close>, the edges as (from, to, weight), the directed box, and the ids of
  the start and goal objects. \<open>traceOf\<close> gives each step of \<^verbatim>\<open>state.steps\<close> as its
  description, data structure, visited nodes and path.
\<close>

definition graphOf :: "state \<Rightarrow>
    nat list \<times> (nat \<times> nat \<times> nat) list \<times> bool \<times> nat option \<times> nat option" where
  "graphOf s = (map (\<lambda>r. nid (obj s r)) (nodes s),
     map (\<lambda>e. (efrom e, eto e, eweight e)) (edges s), directed s,
     map_option (\<lambda>r. nid (obj s r)) (startNode s),
     map_option (\<lambda>r. nid (obj s r)) (goalNode s))"

definition traceOf :: "state \<Rightarrow> (description \<times> nat list \<times> nat list \<times> nat list) list" where
  "traceOf s = map (\<lambda>st. (desc st, ds st, visited st, path st)) (steps s)"

text \<open>
  The sessions the properties below run. \<open>triangle\<close>: three nodes, the undirected
  edges 0-1 of weight 4, 0-2 of weight 1 and 1-2 of weight 1, start 0 and goal 1, with
  Dijkstra selected. \<open>apart\<close>: two nodes and no edge, start 0 and goal 1. \<open>reuse\<close>:
  three nodes, the edge 1-2, then node 0 is deleted and a node is added.
  \<open>reimport\<close>: after \<open>apart\<close>, a document with the nodes 5 and 6, one edge and no
  start or goal is imported.
\<close>

definition triangle :: "event list" where
  "triangle = [AddNode (0, 0), AddNode (100, 0), AddNode (50, 80),
     EdgeClick False 0 None 0, EdgeClick False 0 (Some (codeUnits ''4'')) 1,
     EdgeClick False 0 None 0, EdgeClick False 0 (Some (codeUnits ''1'')) 2,
     EdgeClick False 0 None 1, EdgeClick False 0 (Some (codeUnits ''1'')) 2,
     SetStart 0, SetGoal 1, SelectAlgo Dijkstra]"

definition apart :: "event list" where
  "apart = [AddNode (0, 0), AddNode (100, 0), SetStart 0, SetGoal 1]"

definition reuse :: "event list" where
  "reuse = [AddNode (0, 0), AddNode (100, 0), AddNode (50, 80),
     EdgeClick False 0 None 1, EdgeClick False 0 (Some (codeUnits ''1'')) 2,
     DeleteNode 0, AddNode (0, 0)]"

definition document :: graphData where
  "document = \<lparr> dnodes = [(5, ''a'', 0, 0), (6, ''b'', 100, 0)], dedges = [(5, 6, 1)],
     ddirected = False, dstart = None, dgoal = None \<rparr>"

definition reimport :: "event list" where
  "reimport = apart @ [Import document]"

text \<open>The state a session from a fresh state ends in (the fresh state if it throws).\<close>

definition after :: "event list \<Rightarrow> state" where
  "after evs = (case run evs init of None \<Rightarrow> init | Some s \<Rightarrow> s)"

text \<open>Two nodes, 0 and 1, and nothing else.\<close>

definition pair :: state where
  "pair = addNode (100, 0) (addNode (0, 0) init)"

section \<open>What the adjacency map should hold\<close>

text \<open>
  These two are not functions of the script; they state its properties. \<open>entries\<close>
  counts the entries for the neighbour \<open>v\<close> in the array of \<open>u\<close>.
  \<open>contribution\<close> is what one stored edge puts into the array of \<open>u\<close>: its target if
  \<open>u\<close> is its source, and its source if the graph is undirected and \<open>u\<close> is its
  target.
\<close>

definition entries :: "(nat \<times> (nat \<times> nat) list) list \<Rightarrow> nat \<Rightarrow> nat \<Rightarrow> nat" where
  "entries a u v = length (filter (\<lambda>n. fst n = v) (adjGet a u))"

definition contribution :: "bool \<Rightarrow> nat \<Rightarrow> edge \<Rightarrow> (nat \<times> nat) list" where
  "contribution dir u e =
     (if efrom e = u then [(eto e, eweight e)] else []) @
     (if \<not> dir \<and> eto e = u then [(efrom e, eweight e)] else [])"

text \<open>
  \<open>shown\<close>: two nodes and the edge 0-1, start 0, and breadth-first search stepped to the
  step that discovers node 1, so that node 1 carries the colour of the data structure.
\<close>

definition shown :: "event list" where
  "shown = [AddNode (0, 0), AddNode (100, 0), EdgeClick False 0 None 0,
     EdgeClick False 0 (Some (codeUnits ''1'')) 1, SetStart 0, NextStep, NextStep, NextStep]"

section \<open>Colours and snapshots\<close>

text \<open>
  These are not functions of the script; they state what a snapshot holds.
  \<open>eraseColors\<close> and \<open>plainSnapshot\<close> delete every \<^verbatim>\<open>color\<close> property of a state and
  of a history entry. Two states differ only in colours when their node objects,
  node array, edges, start and goal agree once the colours are deleted. \<open>validRefs\<close>
  says that the references of a state point to node objects.
\<close>

definition eraseColors :: "state \<Rightarrow> state" where
  "eraseColors s = s\<lparr>heap := map (\<lambda>n. n\<lparr>ncolor := None\<rparr>) (heap s),
                      edges := map (\<lambda>e. e\<lparr>ecolor := None\<rparr>) (edges s)\<rparr>"

definition plainSnapshot :: "snapshot \<Rightarrow> snapshot" where
  "plainSnapshot h = h\<lparr>snodes := map (\<lambda>n. n\<lparr>ncolor := None\<rparr>) (snodes h),
                        sedges := map (\<lambda>e. e\<lparr>ecolor := None\<rparr>) (sedges h)\<rparr>"

definition differOnlyInColors :: "state \<Rightarrow> state \<Rightarrow> bool" where
  "differOnlyInColors s s' =
     (map (\<lambda>n. n\<lparr>ncolor := None\<rparr>) (heap s) = map (\<lambda>n. n\<lparr>ncolor := None\<rparr>) (heap s') \<and>
      nodes s = nodes s' \<and>
      map (\<lambda>e. e\<lparr>ecolor := None\<rparr>) (edges s) = map (\<lambda>e. e\<lparr>ecolor := None\<rparr>) (edges s') \<and>
      startNode s = startNode s' \<and> goalNode s = goalNode s')"

definition validRefs :: "state \<Rightarrow> bool" where
  "validRefs s = (list_all (\<lambda>r. r < length (heap s)) (nodes s) \<and>
     (case startNode s of None \<Rightarrow> True | Some r \<Rightarrow> r < length (heap s)) \<and>
     (case goalNode s of None \<Rightarrow> True | Some r \<Rightarrow> r < length (heap s)))"

section \<open>The timer\<close>

text \<open>
  Not functions of the script: \<open>timerOf\<close> is all a state holds about the timer, and
  \<open>timerView\<close> the timer next to the length of the trace and the cursor.
  \<open>playing\<close> is a session that ends with the timer running at the first step of a
  breadth-first trace of four steps.
\<close>

definition timerOf :: "state \<Rightarrow> nat option \<times> nat set \<times> nat" where
  "timerOf s = (intervalId s, liveTimers s, timerCount s)"

definition timerView :: "state \<Rightarrow> nat option \<times> nat set \<times> nat \<times> nat" where
  "timerView s = (intervalId s, liveTimers s, length (steps s), stepIndex s)"

definition playing :: "event list" where
  "playing = [AddNode (0, 0), AddNode (100, 0), SetStart 0, Play]"

text \<open>\<open>chain\<close>: the nodes 0, 1, 2 with the undirected edges 0-1 and 1-2, start 0, and
  breadth-first search prepared by \<^verbatim>\<open>nextStep\<close>.\<close>

definition chain :: "event list" where
  "chain = [AddNode (0, 0), AddNode (100, 0), AddNode (200, 0),
     EdgeClick False 0 None 0, EdgeClick False 0 (Some (codeUnits ''1'')) 1,
     EdgeClick False 0 None 1, EdgeClick False 0 (Some (codeUnits ''1'')) 2,
     SetStart 0, NextStep]"

section \<open>Reachability\<close>

text \<open>
  \<open>nodeIds\<close> are the ids of \<^verbatim>\<open>state.nodes\<close>, in order. \<open>reachable\<close> is the
  component of the start node as the generators walk it: the ids reached from the start
  node along entries of \<^verbatim>\<open>state.adj\<close> whose target is the id of a node.
  \<open>finiteAt\<close> are the keys of a distance map whose value is a number, not
  \<^verbatim>\<open>Infinity\<close>.
\<close>

definition nodeIds :: "state \<Rightarrow> nat list" where
  "nodeIds s = map (\<lambda>r. nid (obj s r)) (nodes s)"

inductive_set reachable :: "state \<Rightarrow> nat set" for s :: state where
  start: "startNode s = Some st \<Longrightarrow> nid (obj s st) \<in> reachable s"
| step: "u \<in> reachable s \<Longrightarrow> (v, w) \<in> set (adjGet (adj s) u) \<Longrightarrow> v \<in> set (nodeIds s)
         \<Longrightarrow> v \<in> reachable s"

definition finiteAt :: "(nat \<times> enat) list \<Rightarrow> nat set" where
  "finiteAt d = {k. \<exists>n. map_of d k = Some (enat n)}"

text \<open>
  The weights of the adjacency map. The distances above are exact sums of weights; the
  additions of the script are exact as long as the sums stay below \<open>2\<^sup>5\<^sup>3\<close>, and
  they do when all the weights of the adjacency map together do.
\<close>

definition adjWeights :: "state \<Rightarrow> nat list" where
  "adjWeights s = concat (map (\<lambda>(k, es). map snd es) (adj s))"

text \<open>
  What holds at the head of \<^verbatim>\<open>while (queue.length > 0)\<close> in
  \<^verbatim>\<open>prepareDijkstra\<close>: the keys of \<^verbatim>\<open>dist\<close> are the node ids; the queue holds
  node ids, each once; only reachable nodes have a finite distance, the start node among
  them; the neighbours of a node of finite distance that has left the queue have a
  finite distance; once a node of infinite distance has left the queue, every node
  still in it has an infinite distance; and \<^verbatim>\<open>prev\<close> is \<^verbatim>\<open>null\<close> at every node of
  infinite distance.
\<close>

definition dInv :: "state \<Rightarrow> nat list \<Rightarrow> (nat \<times> enat) list \<Rightarrow> (nat \<times> nat option) list \<Rightarrow> bool" where
  "dInv s queue d p \<longleftrightarrow>
     dom (map_of d) = set (nodeIds s) \<and> set queue \<subseteq> set (nodeIds s) \<and> distinct queue \<and>
     finiteAt d \<subseteq> reachable s \<and>
     (\<exists>st. startNode s = Some st \<and> nid (obj s st) \<in> finiteAt d) \<and>
     (\<forall>u\<in>finiteAt d. u \<notin> set queue \<longrightarrow>
        (\<forall>v\<in>fst ` set (adjGet (adj s) u). v \<in> set (nodeIds s) \<longrightarrow> v \<in> finiteAt d)) \<and>
     ((\<exists>x\<in>set (nodeIds s) - set queue. x \<notin> finiteAt d) \<longrightarrow> (\<forall>q\<in>set queue. q \<notin> finiteAt d)) \<and>
     (\<forall>k\<in>set (nodeIds s). k \<notin> finiteAt d \<longrightarrow> map_of p k = Some None)"

text \<open>
  What holds at the head of \<^verbatim>\<open>while (openSet.length > 0)\<close> in
  \<^verbatim>\<open>prepareAStar\<close>: the keys of \<^verbatim>\<open>gScore\<close> are the node ids; the open set holds
  nodes of finite \<^verbatim>\<open>gScore\<close>; only reachable nodes have a finite \<^verbatim>\<open>gScore\<close>,
  the start node among them; the neighbours of a node of finite \<^verbatim>\<open>gScore\<close> that is
  not in the open set have a finite \<^verbatim>\<open>gScore\<close>; and \<^verbatim>\<open>fScore\<close> has an entry for
  every node.
\<close>

definition aInv :: "state \<Rightarrow> nat list \<Rightarrow> (nat \<times> enat) list \<Rightarrow> (nat \<times> score) list \<Rightarrow> bool" where
  "aInv s openSet g f \<longleftrightarrow>
     dom (map_of g) = set (nodeIds s) \<and> set openSet \<subseteq> finiteAt g \<and>
     finiteAt g \<subseteq> reachable s \<and>
     (\<exists>st. startNode s = Some st \<and> nid (obj s st) \<in> finiteAt g) \<and>
     (\<forall>u\<in>finiteAt g. u \<notin> set openSet \<longrightarrow>
        (\<forall>v\<in>fst ` set (adjGet (adj s) u). v \<in> set (nodeIds s) \<longrightarrow> v \<in> finiteAt g)) \<and>
     set (nodeIds s) \<subseteq> dom (map_of f)"

text \<open>
  The session \<open>island\<close>: three nodes, the edge 0-1 of weight 3, start 0 and goal 2,
  which no edge touches.
\<close>

definition island :: "event list" where
  "island = [AddNode (0, 0), AddNode (100, 0), AddNode (50, 80),
     EdgeClick False 0 None 0, EdgeClick False 0 (Some (codeUnits ''3'')) 1,
     SetStart 0, SetGoal 2]"

section \<open>Properties\<close>

subsection \<open>The history bound\<close>

lemma history_updateAdjacencyList:
  "history (updateAdjacencyList s) = history s" "historyIndex (updateAdjacencyList s) = historyIndex s"
  by (simp_all add: updateAdjacencyList_def Let_def)

lemma saveState_at_end:
  assumes "historyIndex s = int (length (history s)) - 1" and "length (history s) \<le> 50"
  shows "length (history (saveState s)) = min (Suc (length (history s))) 50"
    and "historyIndex (saveState s) = int (length (history (saveState s))) - 1"
  using assms by (auto simp: saveState_def Let_def)

lemma undo_moves:
  assumes "0 < historyIndex s" and "historyIndex s \<le> int (length (history s))"
  shows "\<exists>s'. undo s = Inr s' \<and> history s' = history s \<and> historyIndex s' = historyIndex s - 1"
  using assms
  by (auto simp: undo_def restoreState_def index_def Let_def history_updateAdjacencyList)

lemma undo_stays: "historyIndex s \<le> 0 \<Longrightarrow> undo s = Inr s"
  by (simp add: undo_def)

lemma undoTimes_moves:
  "int k \<le> historyIndex s \<Longrightarrow> historyIndex s \<le> int (length (history s)) \<Longrightarrow>
   \<exists>s'. undoTimes k s = Inr s' \<and> history s' = history s \<and> historyIndex s' = historyIndex s - int k"
proof (induction k arbitrary: s)
  case 0
  then show ?case by simp
next
  case (Suc k)
  from Suc.prems obtain s1 where s1: "undo s = Inr s1" "history s1 = history s"
      "historyIndex s1 = historyIndex s - 1"
    using undo_moves [of s] by auto
  with Suc.prems have "int k \<le> historyIndex s1" "historyIndex s1 \<le> int (length (history s1))"
    by auto
  from Suc.IH [OF this] s1 show ?case by auto
qed

lemma undoTimes_stays: "historyIndex s \<le> 0 \<Longrightarrow> undoTimes k s = Inr s"
  by (induction k) (simp_all add: undo_stays)

lemma undoTimes_add:
  "undoTimes (j + k) s = (case undoTimes j s of Inl e \<Rightarrow> Inl e | Inr s' \<Rightarrow> undoTimes k s')"
  by (induction j arbitrary: s) (auto split: sum.splits)

lemma edits_history:
  assumes "list_all pushesOneSnapshot gs"
    and "historyIndex s = int (length (history s)) - 1" and "length (history s) \<le> 50"
  shows "length (history (edits gs s)) = min (length (history s) + length gs) 50 \<and>
         historyIndex (edits gs s) = int (length (history (edits gs s))) - 1"
  using assms
proof (induction gs arbitrary: s)
  case Nil
  then show ?case by (simp add: edits_def)
next
  case (Cons g gs)
  from Cons.prems(1) obtain f where f: "keepsHistory f" "\<And>s. g s = saveState (f s)"
    by (auto simp: pushesOneSnapshot_def)
  have fs: "historyIndex (f s) = int (length (history (f s))) - 1" "length (history (f s)) \<le> 50"
    using f(1) Cons.prems(2,3) by (simp_all add: keepsHistory_def)
  have g1: "length (history (g s)) = min (Suc (length (history s))) 50"
    using saveState_at_end(1) [OF fs] f by (simp add: keepsHistory_def)
  have g2: "historyIndex (g s) = int (length (history (g s))) - 1"
    using saveState_at_end(2) [OF fs] f by simp
  have g3: "length (history (g s)) \<le> 50" using g1 by simp
  have "list_all pushesOneSnapshot gs" using Cons.prems(1) by simp
  from Cons.IH [OF this g2 g3] g1 show ?case
    by (auto simp: edits_def min_def)
qed

text \<open>
  Claim C7. Starting from a fresh session, after 60 sequential graph edits, each pushing
  one snapshot (with the oldest entry dropped and the cursor moved down by one whenever
  the stack grows beyond 50), \<^verbatim>\<open>undo()\<close> moves the cursor 49 times, from 49 down to 0;
  from then on it is a no-op.
\<close>

theorem history_bound:
  assumes "length gs = 60" and "list_all pushesOneSnapshot gs"
  shows "(\<forall>k\<le>49. \<exists>s'. undoTimes k (edits gs init) = Inr s' \<and> historyIndex s' = 49 - int k) \<and>
         (\<exists>s'. undoTimes 49 (edits gs init) = Inr s' \<and> undo s' = Inr s') \<and>
         (\<forall>k\<ge>49. undoTimes k (edits gs init) = undoTimes 49 (edits gs init))"
proof -
  let ?s = "edits gs init"
  have "historyIndex init = int (length (history init)) - 1" "length (history init) \<le> 50"
    by (simp_all add: init_def)
  from edits_history [OF assms(2) this] assms(1)
  have len: "length (history ?s) = 50" and idx: "historyIndex ?s = 49"
    by (simp_all add: init_def)
  have moves: "\<exists>s'. undoTimes k ?s = Inr s' \<and> historyIndex s' = 49 - int k" if "k \<le> 49" for k
    using undoTimes_moves [of k ?s] that len idx by auto
  from moves [of 49] obtain s49 where s49: "undoTimes 49 ?s = Inr s49" "historyIndex s49 = 0"
    by auto
  have stays: "undoTimes k ?s = undoTimes 49 ?s" if "49 \<le> k" for k
  proof -
    from that obtain j where "k = 49 + j" using le_Suc_ex by blast
    then show ?thesis using s49 undoTimes_add [of 49 j ?s] by (simp add: undoTimes_stays)
  qed
  show ?thesis using moves stays s49 by (auto simp: undo_stays)
qed


lemma addNode_pushesOneSnapshot: "pushesOneSnapshot (addNode pos)"
  unfolding pushesOneSnapshot_def
  by (rule exI [of _ "\<lambda>s. s\<lparr>heap := heap s @ [\<lparr> nid = length (nodes s), nx = fst pos, ny = snd pos,
          nlabel = toString (length (nodes s)), ncolor = None \<rparr>],
        nodes := nodes s @ [length (heap s)],
        adj := AList.update (length (nodes s)) [] (adj s)\<rparr>"])
     (simp add: keepsHistory_def addNode_def Let_def)

theorem history_bound_witness:
  "length (replicate 60 (addNode (0, 0))) = 60 \<and>
   list_all pushesOneSnapshot (replicate 60 (addNode (0, 0))) \<and>
   (\<exists>s'. undoTimes 49 (edits (replicate 60 (addNode (0, 0))) init) = Inr s' \<and>
         historyIndex s' = 0 \<and> undo s' = Inr s') \<and>
   undoTimes 50 (edits (replicate 60 (addNode (0, 0))) init) =
     undoTimes 49 (edits (replicate 60 (addNode (0, 0))) init)"
proof -
  have a: "length (replicate 60 (addNode (0, 0))) = 60" by simp
  have b: "list_all pushesOneSnapshot (replicate 60 (addNode (0, 0)))"
    by (simp add: list_all_iff addNode_pushesOneSnapshot)
  from history_bound [OF a b] a b show ?thesis by force
qed

subsection \<open>Shortest path on the triangle\<close>

text \<open>
  Claim C3. For the graph with nodes 0, 1, 2 and the undirected edges 0-1 of weight 4,
  0-2 of weight 1 and 1-2 of weight 1, start 0 and goal 1, the trace of
  \<^verbatim>\<open>prepareDijkstra\<close> has one step with a path: the step
  \<^verbatim>\<open>Found shortest path to goal with distance 2\<close>, whose path is 0, 2, 1 (and not
  0, 1 of cost 4). It is the last step but one; the last step is the "completed" step.
\<close>

theorem dijkstra_triangle_path:
  "map_option graphOf (run triangle init) =
     Some ([0, 1, 2], [(0, 1, 4), (0, 2, 1), (1, 2, 1)], False, Some 0, Some 1) \<and>
   map_option (\<lambda>s. map (\<lambda>st. (desc st, path st)) (steps s)) (run (triangle @ [NextStep]) init) =
     Some [(StartingDijkstra (Label ''0''), []),
           (VisitingWithDistance (Label ''0'') (Some 0), []),
           (UpdatedDistance 1 4, []),
           (UpdatedDistance 2 1, []),
           (VisitingWithDistance (Label ''2'') (Some 1), []),
           (UpdatedDistance 1 2, []),
           (VisitingWithDistance (Label ''1'') (Some 2), []),
           (FoundShortestPath (Some 2), [0, 2, 1]),
           (DijkstraCompleted, [])]"
  by code_simp

subsection \<open>An unreachable goal\<close>

text \<open>
  Claim C1, at two nodes with no edge, start 0 and goal 1. The trace of
  \<^verbatim>\<open>prepareDijkstra\<close> does end with the "completed" step, with an empty path and the
  visited set 0. But the goal is taken from the queue with distance \<^verbatim>\<open>Infinity\<close>, and
  the step before the last is
  \<^verbatim>\<open>Found shortest path to goal with distance Infinity\<close> with the one-element path of
  the goal.
\<close>

theorem dijkstra_unreachable_goal_trace:
  "map_option graphOf (run apart init) = Some ([0, 1], [], False, Some 0, Some 1) \<and>
   map_option traceOf (run (apart @ [SelectAlgo Dijkstra, NextStep]) init) =
     Some [(StartingDijkstra (Label ''0''), [0, 1], [], []),
           (VisitingWithDistance (Label ''0'') (Some 0), [1], [0], []),
           (VisitingWithDistance (Label ''1'') (Some \<infinity>), [], [0], []),
           (FoundShortestPath (Some \<infinity>), [], [0], [1]),
           (DijkstraCompleted, [], [0], [])]"
  by code_simp

subsection \<open>Node ids after a deletion\<close>

text \<open>
  Claim C5, at the session \<open>reuse\<close>. After the nodes 0, 1, 2 are created and node 0
  is deleted, \<^verbatim>\<open>state.nodes.length\<close> is 2, so the next node gets the id 2 again: two
  nodes of the store share the id 2.
\<close>

theorem node_id_reused:
  "map_option (\<lambda>s. map (\<lambda>r. nid (obj s r)) (nodes s)) (run (butlast reuse) init) = Some [1, 2] \<and>
   map_option (\<lambda>s. map (\<lambda>r. nid (obj s r)) (nodes s)) (run reuse init) = Some [1, 2, 2]"
  by code_simp

text \<open>
  Claim C2, at the same session. Before the last \<^verbatim>\<open>addNode\<close> the adjacency map
  reflects the edge 1-2 both ways. The new node takes the id 2, and
  \<^verbatim>\<open>state.adj.set(id, [])\<close> empties the array of the node 2 that is already there:
  the undirected edge (1, 2, 1) is still stored, but 1 is no longer in the array of 2.
\<close>

theorem adjacency_lost_after_id_reuse:
  "map_option (\<lambda>s. (graphOf s, adj s)) (run (butlast reuse) init) =
     Some (([1, 2], [(1, 2, 1)], False, None, None), [(1, [(2, 1)]), (2, [(1, 1)])]) \<and>
   map_option (\<lambda>s. (graphOf s, adj s)) (run reuse init) =
     Some (([1, 2, 2], [(1, 2, 1)], False, None, None), [(1, [(2, 1)]), (2, [])])"
  by code_simp

subsection \<open>The start node after an import\<close>

text \<open>
  Claim C10, at the session \<open>reimport\<close>. \<^verbatim>\<open>importGraph\<close> replaces the nodes but
  does not reset \<^verbatim>\<open>state.startNode\<close> and \<^verbatim>\<open>state.goalNode\<close> when the document names
  no start and no goal: they still refer to the old node objects (references 0 and 1,
  ids 0 and 1), which are not in \<^verbatim>\<open>state.nodes\<close> any more (references 2 and 3, ids
  5 and 6). \<^verbatim>\<open>prepareAlgo\<close> then finds a start node: breadth-first search looks node
  0 up, finds nothing and throws at \<^verbatim>\<open>currentNode.label\<close>; Dijkstra runs and names the
  deleted node in its first step.
\<close>

theorem start_node_dangles_after_import:
  "map_option (\<lambda>s. (graphOf s, nodes s, startNode s, goalNode s)) (run reimport init) =
     Some (([5, 6], [(5, 6, 1)], False, Some 0, Some 1), [2, 3], Some 0, Some 1) \<and>
   map_option (\<lambda>s. map_sum id traceOf (prepareAlgo s)) (run reimport init) =
     Some (Inl TypeError) \<and>
   map_option (\<lambda>s. map_sum id traceOf (prepareAlgo s)) (run (reimport @ [SelectAlgo Dijkstra]) init) =
     Some (Inr [(StartingDijkstra (Label ''0''), [5, 6], [], []),
                (VisitingWithDistance (Label ''a'') (Some \<infinity>), [6], [], []),
                (VisitingWithDistance (Label ''b'') (Some \<infinity>), [], [], []),
                (DijkstraCompleted, [], [], [])])"
  by code_simp

subsection \<open>Edge weights\<close>

lemma edges_saveState: "edges (saveState s) = edges s"
  by (simp add: saveState_def Let_def)

lemma edges_updateAdjacencyList: "edges (updateAdjacencyList s) = edges s"
  by (simp add: updateAdjacencyList_def Let_def)

text \<open>
  Claim C8, at the answer \<^verbatim>\<open>3.7\<close> to the two weight prompts. \<^verbatim>\<open>parseInt\<close> reads
  the number 3 and stops at the point, and 3 passes the guard: the weight editor gives
  the edge 0-1 of the triangle the weight 3 (in \<^verbatim>\<open>state.edges\<close> and in the adjacency
  map), and \<^verbatim>\<open>addEdge\<close> stores a new edge 0-1 of weight 3 between two nodes. Nothing is
  refused, although the prompt of \<^verbatim>\<open>addEdge\<close> asks for a positive integer and its
  alert for a valid positive integer.
\<close>

theorem weight_37_truncated:
  "parseInt (codeUnits ''3.7'') = Some (False, 3) \<and>
   map_option (\<lambda>s. map_sum id (\<lambda>s'. map eweight (edges s')) (handleClickEdge 0 (Some (codeUnits ''3.7'')) s))
     (run triangle init) = Some (Inr [3, 1, 1]) \<and>
   map_option (\<lambda>s. (map eweight (edges s), adjGet (adj s) 0, adjGet (adj s) 1))
     (run (triangle @ [EditWeight 0 (Some (codeUnits ''3.7''))]) init)
     = Some ([3, 1, 1], [(1, 3), (2, 1)], [(0, 3), (2, 1)]) \<and>
   map_sum id (\<lambda>s'. (graphOf s', adj s')) (addEdge False 0 (Some (codeUnits ''3.7'')) 0 1 pair)
     = Inr (([0, 1], [(0, 1, 3)], False, None, None), [(0, [(1, 3)]), (1, [(0, 3)])])"
  by code_simp

lemma isDigit_decimal: "isDigit 10 c \<longleftrightarrow> 48 \<le> c \<and> c \<le> 57"
  by (auto simp: isDigit_def digitValue_def)

lemma decimal_not_space: "isDigit 10 c \<Longrightarrow> \<not> isWhiteSpace c"
  by (auto simp: isDigit_decimal isWhiteSpace_def)

lemma toDouble_small: "n < 2 ^ 53 \<Longrightarrow> toDouble n = enat n"
  by (simp add: toDouble_def)

lemma parseInt_decimal:
  assumes ws: "list_all isWhiteSpace ws" and dg: "list_all (isDigit 10) dg"
    and pos: "0 < digitsValue 10 dg" and rest: "rest = [] \<or> \<not> isDigit 10 (hd rest)"
  shows "parseInt (ws @ dg @ rest) = Some (False, toDouble (digitsValue 10 dg))"
proof -
  from pos obtain d dg' where dd: "dg = d # dg'" by (cases dg) (auto simp: digitsValue_def)
  have d: "48 \<le> d" "d \<le> 57" using dg dd by (simp_all add: isDigit_decimal)
  have s1: "dropWhile isWhiteSpace (ws @ dg @ rest) = d # dg' @ rest"
  proof -
    have "dropWhile isWhiteSpace (ws @ dg @ rest) = dropWhile isWhiteSpace (dg @ rest)"
      using ws by (intro dropWhile_append2) (simp add: list_all_iff)
    also have "\<dots> = d # dg' @ rest"
      using dg dd by (simp add: decimal_not_space)
    finally show ?thesis .
  qed
  have prefix: "\<not> (d = 48 \<and> (x = 120 \<or> x = 88))" if "dg' @ rest = x # r" for x r
  proof (cases dg')
    case Nil
    have "digitsValue 10 [d] = d - 48" using d by (simp add: digitsValue_def digitValue_def)
    with pos dd Nil show ?thesis by auto
  next
    case (Cons y ys)
    with that have "x = y" by simp
    moreover have "isDigit 10 y" using dg dd Cons by simp
    ultimately show ?thesis by (auto simp: isDigit_decimal)
  qed
  have radix: "(case dg' @ rest of [] \<Rightarrow> (10::nat, d # dg' @ rest)
             | x # r \<Rightarrow> if d = 48 \<and> (x = 120 \<or> x = 88) then (16, r)
                        else (10, d # dg' @ rest)) = (10, d # dg' @ rest)"
  proof (cases "dg' @ rest")
    case Nil
    then show ?thesis by simp
  next
    case (Cons x r)
    with prefix [OF Cons] show ?thesis by auto
  qed
  have tw: "takeWhile (isDigit 10) (d # dg' @ rest) = dg"
  proof -
    have "takeWhile (isDigit 10) (dg @ rest) = dg @ takeWhile (isDigit 10) rest"
      using dg by (intro takeWhile_append2) (simp add: list_all_iff)
    moreover have "takeWhile (isDigit 10) rest = []"
      using rest by (cases rest) auto
    ultimately show ?thesis using dd by simp
  qed
  have sign: "d \<noteq> of_char CHR ''-''" "d \<noteq> of_char CHR ''+''" using d by simp_all
  show ?thesis
    unfolding parseInt_def s1 using sign dd
    by (simp add: Let_def radix tw del: takeWhile.simps)
qed


text \<open>
  What the two prompts make of an answer that starts with a positive decimal integer:
  white space before it (the no-break space and the other Unicode spaces included) and
  everything after its last digit are ignored, so the answer has the outcome of the
  digits alone. When the integer is below \<open>2\<^sup>5\<^sup>3\<close> it becomes the weight.
\<close>

theorem weight_tail_ignored:
  assumes "list_all isWhiteSpace ws" and "list_all (isDigit 10) dg"
    and "0 < digitsValue 10 dg" and "rest = [] \<or> \<not> isDigit 10 (hd rest)"
  shows "handleClickEdge k (Some (ws @ dg @ rest)) s = handleClickEdge k (Some dg) s \<and>
         addEdge False rnd (Some (ws @ dg @ rest)) f t s = addEdge False rnd (Some dg) f t s \<and>
         (digitsValue 10 dg < 2 ^ 53 \<longrightarrow>
            edgeWeight False rnd (Some (ws @ dg @ rest)) = Inr (enat (digitsValue 10 dg)) \<and>
            (\<exists>s'. handleClickEdge k (Some (ws @ dg @ rest)) s = Inr s' \<and>
                  edges s' = (edges s)[k := (edges s ! k)\<lparr>eweight := digitsValue 10 dg\<rparr>]))"
proof -
  have p: "parseInt (ws @ dg @ rest) = Some (False, toDouble (digitsValue 10 dg))"
    by (rule parseInt_decimal [OF assms])
  have "parseInt ([] @ dg @ []) = Some (False, toDouble (digitsValue 10 dg))"
    by (rule parseInt_decimal) (simp_all add: assms)
  then have q: "parseInt dg = Some (False, toDouble (digitsValue 10 dg))" by simp
  have a: "handleClickEdge k (Some (ws @ dg @ rest)) s = handleClickEdge k (Some dg) s"
    by (simp add: handleClickEdge_def p q)
  have b: "addEdge False rnd (Some (ws @ dg @ rest)) f t s = addEdge False rnd (Some dg) f t s"
    by (simp add: addEdge_def edgeWeight_def readWeight_def p q)
  have c: "edgeWeight False rnd (Some (ws @ dg @ rest)) = Inr (enat (digitsValue 10 dg)) \<and>
      (\<exists>s'. handleClickEdge k (Some (ws @ dg @ rest)) s = Inr s' \<and>
            edges s' = (edges s)[k := (edges s ! k)\<lparr>eweight := digitsValue 10 dg\<rparr>])"
    if "digitsValue 10 dg < 2 ^ 53"
    using assms(3) toDouble_small [OF that]
    by (simp add: edgeWeight_def readWeight_def handleClickEdge_def p positive_def
        enat_0_iff edges_saveState edges_updateAdjacencyList)
  show ?thesis using a b c by blast
qed

theorem weight_tail_ignored_witness:
  "handleClickEdge 0 (Some ([0xA0] @ codeUnits ''12'' @ codeUnits ''.5kg'')) (after triangle)
     = handleClickEdge 0 (Some (codeUnits ''12'')) (after triangle) \<and>
   edgeWeight False 0 (Some ([0xA0] @ codeUnits ''12'' @ codeUnits ''.5kg'')) = Inr 12 \<and>
   (\<exists>s'. handleClickEdge 0 (Some ([0xA0] @ codeUnits ''12'' @ codeUnits ''.5kg'')) (after triangle) = Inr s' \<and>
         map eweight (edges s') = [12, 1, 1])"
proof -
  have h: "list_all isWhiteSpace [0xA0]" "list_all (isDigit 10) (codeUnits ''12'')"
    "digitsValue 10 (codeUnits ''12'') = 12"
    "codeUnits ''.5kg'' = [] \<or> \<not> isDigit 10 (hd (codeUnits ''.5kg''))"
    by code_simp+
  have e: "map eweight (edges (after triangle)) = [4, 1, 1]" by code_simp
  have p: "0 < digitsValue 10 (codeUnits ''12'')" "digitsValue 10 (codeUnits ''12'') < 2 ^ 53"
    by (simp_all add: h(3))
  note t = weight_tail_ignored [OF h(1) h(2) p(1) h(4), of 0 "after triangle" 0 0 0]
  note t3 = t [THEN conjunct2, THEN conjunct2, THEN mp, OF p(2)]
  from t3 obtain s' where s': "handleClickEdge 0 (Some ([0xA0] @ codeUnits ''12'' @ codeUnits ''.5kg'')) (after triangle) = Inr s'"
    "edges s' = (edges (after triangle))[0 := (edges (after triangle) ! 0)\<lparr>eweight := digitsValue 10 (codeUnits ''12'')\<rparr>]"
    by blast
  have "map eweight (edges s') = (map eweight (edges (after triangle)))[0 := 12]"
    unfolding s'(2) h(3) using e by (cases "edges (after triangle)") auto
  with e have f: "map eweight (edges s') = [12, 1, 1]" by simp
  have g: "edgeWeight False 0 (Some ([0xA0] @ codeUnits ''12'' @ codeUnits ''.5kg'')) = Inr 12"
    using t3 [THEN conjunct1] by (simp add: h(3) numeral_eq_enat)
  have a: "handleClickEdge 0 (Some ([0xA0] @ codeUnits ''12'' @ codeUnits ''.5kg'')) (after triangle)
     = handleClickEdge 0 (Some (codeUnits ''12'')) (after triangle)"
    by (rule t [THEN conjunct1])
  have x: "\<exists>s'. handleClickEdge 0 (Some ([0xA0] @ codeUnits ''12'' @ codeUnits ''.5kg'')) (after triangle) = Inr s' \<and>
         map eweight (edges s') = [12, 1, 1]"
    by (rule exI [of _ s']) (simp only: s'(1) f simp_thms)
  show ?thesis by (intro conjI a g x)
qed

subsection \<open>Duplicate edges\<close>

lemma adjGet_adjPush:
  "adjGet (adjPush k e a) u = (if u = k then adjGet a k @ [e] else adjGet a u)"
  by (simp add: adjGet_def adjPush_def update_conv')

lemma adjGet_fold_edges:
  "adjGet (fold (\<lambda>e a.
       if \<not> dir then adjPush (eto e) (efrom e, eweight e) (adjPush (efrom e) (eto e, eweight e) a)
       else adjPush (efrom e) (eto e, eweight e) a) es a) u
   = adjGet a u @ concat (map (contribution dir u) es)"
  by (induction es arbitrary: a) (auto simp: adjGet_adjPush contribution_def)

lemma adjGet_update_empty:
  "adjGet (AList.update k [] a) u = (if u = k then [] else adjGet a u)"
  by (simp add: adjGet_def update_conv')

lemma adjGet_fold_nodes:
  "adjGet a u = [] \<Longrightarrow> adjGet (fold (\<lambda>r a. AList.update (g r) [] a) rs a) u = []"
  by (induction rs arbitrary: a) (simp_all add: adjGet_update_empty)

lemma adjGet_Nil: "adjGet [] u = []"
  by (simp add: adjGet_def)

lemma adjGet_updateAdjacencyList:
  "adjGet (adj (updateAdjacencyList s)) u = concat (map (contribution (directed s) u) (edges s))"
  by (simp add: updateAdjacencyList_def Let_def adjGet_fold_edges adjGet_fold_nodes adjGet_Nil)

lemma no_entry_without_edge:
  "\<not> list_ex (\<lambda>e. (efrom e = u \<and> eto e = v) \<or> (\<not> dir \<and> efrom e = v \<and> eto e = u)) es \<Longrightarrow>
   filter (\<lambda>n. fst n = v) (concat (map (contribution dir u) es)) = []"
  by (induction es) (auto simp: contribution_def)

lemma addEdge_result:
  assumes "addEdge rw rnd input f t s = Inr s1"
  shows "\<exists>w. heap s1 = heap s \<and> directed s1 = directed s \<and>
     \<not> edgeExists s (nid (obj s f)) (nid (obj s t)) \<and>
     edges s1 = edges s @ [\<lparr> efrom = nid (obj s f), eto = nid (obj s t), eweight = w, ecolor = None \<rparr>] \<and>
     adj s1 = (if \<not> directed s
               then adjPush (nid (obj s t)) (nid (obj s f), w)
                      (adjPush (nid (obj s f)) (nid (obj s t), w) (adj s))
               else adjPush (nid (obj s f)) (nid (obj s t), w) (adj s))"
  using assms
  by (auto simp: addEdge_def saveState_def Let_def split: sum.splits if_splits enat.splits)

text \<open>
  Claim C6. Once \<^verbatim>\<open>addEdge\<close> has added the edge from \<open>f\<close> to \<open>t\<close>, every further
  attempt to add it is refused, with \<open>DuplicateEdge\<close> whenever the weight entered is
  valid, and so is the reversed pair when the graph is undirected; the refusal happens
  before anything is written. If the graph is undirected, the adjacency map was the
  one \<^verbatim>\<open>updateAdjacencyList\<close> derives from the edges, and the two nodes have different
  ids (the click handler calls \<^verbatim>\<open>addEdge\<close> only then), the map holds exactly one entry
  each way afterwards.
\<close>

theorem duplicate_edge_rejected:
  assumes "addEdge rw rnd input f t s = Inr s1"
  shows "(\<exists>e. addEdge rw' rnd' input' f t s1 = Inl e) \<and>
    (\<forall>w'. edgeWeight rw' rnd' input' = Inr w' \<longrightarrow>
       addEdge rw' rnd' input' f t s1 = Inl DuplicateEdge \<and>
       (\<not> directed s \<longrightarrow> addEdge rw' rnd' input' t f s1 = Inl DuplicateEdge)) \<and>
    (\<not> directed s \<and> adj s = adj (updateAdjacencyList s) \<and> nid (obj s f) \<noteq> nid (obj s t) \<longrightarrow>
       entries (adj s1) (nid (obj s f)) (nid (obj s t)) = 1 \<and>
       entries (adj s1) (nid (obj s t)) (nid (obj s f)) = 1)"
proof -
  from addEdge_result [OF assms] obtain w where r:
    "heap s1 = heap s" "directed s1 = directed s"
    "\<not> edgeExists s (nid (obj s f)) (nid (obj s t))"
    "edges s1 = edges s @ [\<lparr> efrom = nid (obj s f), eto = nid (obj s t), eweight = w, ecolor = None \<rparr>]"
    "adj s1 = (if \<not> directed s
               then adjPush (nid (obj s t)) (nid (obj s f), w)
                      (adjPush (nid (obj s f)) (nid (obj s t), w) (adj s))
               else adjPush (nid (obj s f)) (nid (obj s t), w) (adj s))"
    by blast
  have o: "obj s1 = obj s" using r(1) by (simp add: obj_def fun_eq_iff)
  have ex1: "edgeExists s1 (nid (obj s1 f)) (nid (obj s1 t))"
    using r(4) o by (simp add: edgeExists_def)
  have ex2: "\<not> directed s \<Longrightarrow> edgeExists s1 (nid (obj s1 t)) (nid (obj s1 f))"
    using r(2,4) o by (simp add: edgeExists_def)
  have a: "\<exists>e. addEdge rw' rnd' input' f t s1 = Inl e"
    using ex1 by (cases "edgeWeight rw' rnd' input'") (simp_all add: addEdge_def Let_def)
  have b: "addEdge rw' rnd' input' f t s1 = Inl DuplicateEdge"
    if "edgeWeight rw' rnd' input' = Inr w'" for w'
    using that ex1 by (simp add: addEdge_def Let_def)
  have c: "addEdge rw' rnd' input' t f s1 = Inl DuplicateEdge"
    if "edgeWeight rw' rnd' input' = Inr w'" "\<not> directed s" for w'
    using that ex2 by (simp add: addEdge_def Let_def)
  have d: "entries (adj s1) (nid (obj s f)) (nid (obj s t)) = 1 \<and>
       entries (adj s1) (nid (obj s t)) (nid (obj s f)) = 1"
    if u: "\<not> directed s" and c: "adj s = adj (updateAdjacencyList s)"
      and ne: "nid (obj s f) \<noteq> nid (obj s t)"
  proof -
    let ?f = "nid (obj s f)" and ?t = "nid (obj s t)"
    have g: "adjGet (adj s) k = concat (map (contribution False k) (edges s))" for k
      using adjGet_updateAdjacencyList [of s k] c u by simp
    have n1: "filter (\<lambda>n. fst n = ?t) (adjGet (adj s) ?f) = []"
      unfolding g using r(3) u no_entry_without_edge [of ?f ?t False "edges s"]
      by (simp add: edgeExists_def)
    have "\<not> list_ex (\<lambda>e. (efrom e = ?t \<and> eto e = ?f) \<or> (\<not> False \<and> efrom e = ?f \<and> eto e = ?t)) (edges s)"
      using r(3) u by (auto simp: edgeExists_def list_ex_iff)
    then have n2: "filter (\<lambda>n. fst n = ?f) (adjGet (adj s) ?t) = []"
      unfolding g using no_entry_without_edge [of ?t ?f False "edges s"] by simp
    show ?thesis
      using r(5) u ne n1 n2 by (simp add: entries_def adjGet_adjPush)
  qed
  show ?thesis using a b c d by blast
qed

theorem duplicate_edge_rejected_witness:
  "\<exists>s1. addEdge False 0 (Some (codeUnits ''1'')) 0 1 pair = Inr s1 \<and>
      addEdge False 0 (Some (codeUnits ''1'')) 0 1 s1 = Inl DuplicateEdge \<and>
      addEdge False 0 (Some (codeUnits ''1'')) 1 0 s1 = Inl DuplicateEdge \<and>
      entries (adj s1) 0 1 = 1 \<and> entries (adj s1) 1 0 = 1 \<and>
      map (\<lambda>e. (efrom e, eto e, eweight e)) (edges s1) = [(0, 1, 1)]"
proof -
  have "case addEdge False 0 (Some (codeUnits ''1'')) 0 1 pair of Inl e \<Rightarrow> False
        | Inr s1 \<Rightarrow> map (\<lambda>e. (efrom e, eto e, eweight e)) (edges s1) = [(0, 1, 1)]"
    by code_simp
  then obtain s1 where s1: "addEdge False 0 (Some (codeUnits ''1'')) 0 1 pair = Inr s1"
      "map (\<lambda>e. (efrom e, eto e, eweight e)) (edges s1) = [(0, 1, 1)]"
    by (cases "addEdge False 0 (Some (codeUnits ''1'')) 0 1 pair") auto
  have w: "edgeWeight False 0 (Some (codeUnits ''1'')) = Inr 1" by code_simp
  have h: "\<not> directed pair" "adj pair = adj (updateAdjacencyList pair)"
    "nid (obj pair 0) = 0" "nid (obj pair 1) = 1"
    by code_simp+
  from duplicate_edge_rejected [OF s1(1), of False 0 "Some (codeUnits ''1'')"] w h s1 show ?thesis
    by auto
qed

subsection \<open>Snapshots and highlight colours\<close>

text \<open>
  Claim C4 as stated fails. While step 3 of the breadth-first trace is shown, node 1
  has the colour of the data structure; the same graph after
  \<^verbatim>\<open>resetVisualization\<close> differs from it only in colours, and the two snapshots
  differ. After a node is added (which records a snapshot), the visualization is reset
  and another node is added, \<^verbatim>\<open>undo\<close> brings the highlight colour of node 1 back
  although no trace is loaded.
\<close>

theorem snapshot_holds_colors:
  "stateCopy (after shown) \<noteq> stateCopy (after (shown @ [ResetVisualization])) \<and>
   differOnlyInColors (after shown) (after (shown @ [ResetVisualization])) \<and>
   map (\<lambda>n. (nid n, ncolor n)) (snodes (stateCopy (after shown)))
     = [(0, Some COLORS_START), (1, Some COLORS_VISITING)] \<and>
   (\<lambda>s. (length (steps s), map (\<lambda>r. (nid (obj s r), ncolor (obj s r))) (nodes s)))
      (after (shown @ [AddNode (50, 80), ResetVisualization, AddNode (50, 160)]))
     = (0, [(0, Some COLORS_START), (1, None), (2, None), (3, None)]) \<and>
   (\<lambda>s. (length (steps s), map (\<lambda>r. (nid (obj s r), ncolor (obj s r))) (nodes s)))
      (after (shown @ [AddNode (50, 80), ResetVisualization, AddNode (50, 160), Undo]))
     = (0, [(0, Some COLORS_START), (1, Some COLORS_VISITING), (2, None)])"
  by code_simp

lemma obj_eraseColors:
  "r < length (heap s) \<Longrightarrow> obj (eraseColors s) r = (obj s r)\<lparr>ncolor := None\<rparr>"
  by (simp add: obj_def eraseColors_def)

lemma findNode_eraseColors:
  assumes "list_all (\<lambda>r. r < length (heap s)) (nodes s)"
  shows "findNode (eraseColors s) i = findNode s i"
proof -
  have "find (\<lambda>r. nid (obj (eraseColors s) r) = i) ns = find (\<lambda>r. nid (obj s r) = i) ns"
    if "list_all (\<lambda>r. r < length (heap s)) ns" for ns
    using that by (induction ns) (simp_all add: obj_eraseColors)
  from this [OF assms] show ?thesis by (simp add: findNode_def eraseColors_def)
qed

lemma stateCopy_eraseColors:
  assumes "validRefs s"
  shows "stateCopy (eraseColors s) = plainSnapshot (stateCopy s)"
proof -
  from assms have v: "list_all (\<lambda>r. r < length (heap s)) (nodes s)"
    by (simp add: validRefs_def)
  have n: "map (obj (eraseColors s)) (nodes s) = map (\<lambda>n. n\<lparr>ncolor := None\<rparr>) (map (obj s) (nodes s))"
    using v by (simp add: list_all_iff obj_eraseColors)
  have st: "(case startNode s of None \<Rightarrow> None
             | Some r \<Rightarrow> findNode (eraseColors s) (nid (obj (eraseColors s) r)))
          = (case startNode s of None \<Rightarrow> None | Some r \<Rightarrow> findNode s (nid (obj s r)))"
    using assms v by (cases "startNode s") (simp_all add: validRefs_def findNode_eraseColors obj_eraseColors)
  have go: "(case goalNode s of None \<Rightarrow> None
             | Some r \<Rightarrow> findNode (eraseColors s) (nid (obj (eraseColors s) r)))
          = (case goalNode s of None \<Rightarrow> None | Some r \<Rightarrow> findNode s (nid (obj s r)))"
    using assms v by (cases "goalNode s") (simp_all add: validRefs_def findNode_eraseColors obj_eraseColors)
  have f: "nodes (eraseColors s) = nodes s" "startNode (eraseColors s) = startNode s"
    "goalNode (eraseColors s) = goalNode s"
    "edges (eraseColors s) = map (\<lambda>e. e\<lparr>ecolor := None\<rparr>) (edges s)"
    by (simp_all add: eraseColors_def)
  show ?thesis
    unfolding stateCopy_def plainSnapshot_def f n st go by simp
qed

lemma stateCopy_cong:
  "heap s = heap s' \<Longrightarrow> nodes s = nodes s' \<Longrightarrow> edges s = edges s' \<Longrightarrow>
   startNode s = startNode s' \<Longrightarrow> goalNode s = goalNode s' \<Longrightarrow> stateCopy s = stateCopy s'"
  by (auto simp: stateCopy_def findNode_def obj_def split: option.splits)

lemma stateCopy_differOnlyInColors:
  assumes "validRefs s" and "validRefs s'" and "differOnlyInColors s s'"
  shows "plainSnapshot (stateCopy s) = plainSnapshot (stateCopy s')"
proof -
  have "stateCopy (eraseColors s) = stateCopy (eraseColors s')"
    using assms(3) by (intro stateCopy_cong) (simp_all add: differOnlyInColors_def eraseColors_def)
  then show ?thesis
    using stateCopy_eraseColors [OF assms(1)] stateCopy_eraseColors [OF assms(2)] by simp
qed

lemma last_history_saveState: "last (history (saveState s)) = stateCopy s"
proof -
  have "last (tl (xs @ [x])) = x" if "length (xs @ [x]) > 50" for xs :: "snapshot list" and x
    using that by (cases xs) auto
  then show ?thesis by (auto simp: saveState_def Let_def)
qed

lemma heap_updateAdjacencyList:
  "heap (updateAdjacencyList s) = heap s" "nodes (updateAdjacencyList s) = nodes s"
  by (simp_all add: updateAdjacencyList_def Let_def)

lemma restoreState_nodes:
  assumes "index (history s) (historyIndex s) = Some h"
  shows "\<exists>s'. restoreState s = Inr s' \<and> map (obj s') (nodes s') = snodes h \<and> edges s' = sedges h"
proof -
  from assms obtain s' where s': "restoreState s = Inr s'" "heap s' = heap s @ snodes h"
      "nodes s' = [length (heap s) ..< length (heap s) + length (snodes h)]" "edges s' = sedges h"
    by (simp add: restoreState_def Let_def heap_updateAdjacencyList edges_updateAdjacencyList)
  have "map (obj s') (nodes s') = snodes h"
    unfolding s'(3) by (rule nth_equalityI) (simp_all add: obj_def s'(2) nth_append)
  with s' show ?thesis by blast
qed

text \<open>
  Claim C4, amended. The snapshot \<^verbatim>\<open>saveState\<close> records is a copy of the node and
  edge objects as they are, colours included. For two states that differ only in
  colours the snapshots agree in everything but the colour properties, and restoring
  a snapshot writes its nodes and edges back with the colours it holds.
\<close>

theorem snapshot_copies_colors:
  "last (history (saveState s)) = stateCopy s \<and>
   snodes (stateCopy s) = map (obj s) (nodes s) \<and> sedges (stateCopy s) = edges s \<and>
   (validRefs s \<and> validRefs s' \<and> differOnlyInColors s s' \<longrightarrow>
      plainSnapshot (stateCopy s) = plainSnapshot (stateCopy s')) \<and>
   (\<forall>h. index (history s) (historyIndex s) = Some h \<longrightarrow>
      (\<exists>s''. restoreState s = Inr s'' \<and> map (obj s'') (nodes s'') = snodes h \<and>
             edges s'' = sedges h))"
proof (intro conjI)
  show "last (history (saveState s)) = stateCopy s" by (rule last_history_saveState)
  show "snodes (stateCopy s) = map (obj s) (nodes s)" by (simp add: stateCopy_def)
  show "sedges (stateCopy s) = edges s" by (simp add: stateCopy_def)
  show "validRefs s \<and> validRefs s' \<and> differOnlyInColors s s' \<longrightarrow>
      plainSnapshot (stateCopy s) = plainSnapshot (stateCopy s')"
    using stateCopy_differOnlyInColors by blast
  show "\<forall>h. index (history s) (historyIndex s) = Some h \<longrightarrow>
      (\<exists>s''. restoreState s = Inr s'' \<and> map (obj s'') (nodes s'') = snodes h \<and>
             edges s'' = sedges h)"
    using restoreState_nodes by blast
qed


theorem snapshot_copies_colors_witness:
  "validRefs (after shown) \<and> validRefs (after (shown @ [ResetVisualization])) \<and>
   differOnlyInColors (after shown) (after (shown @ [ResetVisualization])) \<and>
   plainSnapshot (stateCopy (after shown)) =
     plainSnapshot (stateCopy (after (shown @ [ResetVisualization]))) \<and>
   last (history (saveState (after shown))) = stateCopy (after shown) \<and>
   map ncolor (snodes (stateCopy (after shown))) = [Some COLORS_START, Some COLORS_VISITING] \<and>
   (\<exists>s''. restoreState (after (shown @ [AddNode (50, 80), ResetVisualization])) = Inr s'' \<and>
      map ncolor (map (obj s'') (nodes s'')) = [Some COLORS_START, Some COLORS_VISITING, None])"
proof -
  let ?a = "after shown" and ?b = "after (shown @ [ResetVisualization])"
  let ?c = "after (shown @ [AddNode (50, 80), ResetVisualization])"
  have v1: "validRefs ?a" by code_simp
  have v2: "validRefs ?b" by code_simp
  have v3: "differOnlyInColors ?a ?b" by code_simp
  have c: "map ncolor (map (obj ?a) (nodes ?a)) = [Some COLORS_START, Some COLORS_VISITING]"
    by code_simp
  have "map_option (\<lambda>h. map ncolor (snodes h)) (index (history ?c) (historyIndex ?c))
     = Some [Some COLORS_START, Some COLORS_VISITING, None]"
    by code_simp
  then obtain h where h: "index (history ?c) (historyIndex ?c) = Some h"
      "map ncolor (snodes h) = [Some COLORS_START, Some COLORS_VISITING, None]"
    by (cases "index (history ?c) (historyIndex ?c)") simp_all
  note t = snapshot_copies_colors [of ?a ?b]
  note u = snapshot_copies_colors [of ?c ?c]
  from u h(1) obtain s'' where s'': "restoreState ?c = Inr s''" "map (obj s'') (nodes s'') = snodes h"
    by blast
  have r: "\<exists>s''. restoreState ?c = Inr s'' \<and>
      map ncolor (map (obj s'') (nodes s'')) = [Some COLORS_START, Some COLORS_VISITING, None]"
    using s'' h(2) by (intro exI [of _ s'']) (simp only: simp_thms)
  have p: "plainSnapshot (stateCopy ?a) = plainSnapshot (stateCopy ?b)"
    using t v1 v2 v3 by blast
  have l: "last (history (saveState ?a)) = stateCopy ?a" using t by blast
  have n: "map ncolor (snodes (stateCopy ?a)) = [Some COLORS_START, Some COLORS_VISITING]"
    using t c by (simp only:)
  show ?thesis using v1 v2 v3 p l n r by (intro conjI)
qed

subsection \<open>The playback timer\<close>

text \<open>
  Claim C9 as stated fails. With the timer running at the first of four steps,
  \<^verbatim>\<open>resetVisualization\<close> cancels it: neither \<^verbatim>\<open>pause\<close> nor the last step. And a run
  can start under a running timer: \<^verbatim>\<open>play\<close> with no start node starts the timer on
  an empty trace; once a start node is set, \<^verbatim>\<open>nextStep\<close> generates the trace and the
  timer, still the same one, steps through it at its next tick.
\<close>

theorem timer_cancelled_without_pause:
  "timerView (after playing) = (Some 0, {0}, 4, 0) \<and>
   timerView (after (playing @ [ResetVisualization]))
     = (None, {}, 0, 0) \<and>
   timerView (after [AddNode (0, 0), AddNode (100, 0), Play]) = (Some 0, {0}, 0, 0) \<and>
   timerView (after [AddNode (0, 0), AddNode (100, 0), Play, SetStart 0, NextStep])
     = (Some 0, {0}, 4, 1) \<and>
   timerView (after [AddNode (0, 0), AddNode (100, 0), Play, SetStart 0, NextStep, Tick])
     = (Some 0, {0}, 4, 2)"
  by code_simp

lemma timerOf_saveState: "timerOf (saveState s) = timerOf s"
  by (simp add: timerOf_def saveState_def Let_def)

lemma timerOf_updateAdjacencyList: "timerOf (updateAdjacencyList s) = timerOf s"
  by (simp add: timerOf_def updateAdjacencyList_def Let_def)

lemma timerOf_setColor: "timerOf (setColor r c s) = timerOf s"
  by (simp add: timerOf_def setColor_def)

lemma timerOf_fold:
  "(\<And>x s. timerOf (f x s) = timerOf s) \<Longrightarrow> timerOf (fold f xs s) = timerOf s"
  by (induction xs arbitrary: s) simp_all

lemma timerOf_resetNodeColor: "timerOf (resetNodeColor r s) = timerOf s"
  by (simp add: resetNodeColor_def timerOf_setColor)

lemma timerOf_colorNode: "timerOf (colorNode c i s) = timerOf s"
  by (simp add: colorNode_def timerOf_setColor split: option.splits)

lemma timerOf_fields:
  "timerOf (s\<lparr>edges := es\<rparr>) = timerOf s" "timerOf (s\<lparr>stepIndex := i\<rparr>) = timerOf s"
  "timerOf (s\<lparr>steps := st\<rparr>) = timerOf s" "timerOf (s\<lparr>startNode := n\<rparr>) = timerOf s"
  "timerOf (s\<lparr>goalNode := n\<rparr>) = timerOf s" "timerOf (s\<lparr>historyIndex := h\<rparr>) = timerOf s"
  "timerOf (s\<lparr>currentAlgo := a\<rparr>) = timerOf s" "timerOf (s\<lparr>directed := d\<rparr>) = timerOf s"
  "timerOf (s\<lparr>adj := aj\<rparr>) = timerOf s" "timerOf (s\<lparr>nodes := ns\<rparr>) = timerOf s"
  "timerOf (s\<lparr>heap := hp\<rparr>) = timerOf s" "timerOf (s\<lparr>selectedNodes := sn\<rparr>) = timerOf s"
  "timerOf (s\<lparr>searchResults := sr\<rparr>) = timerOf s" "timerOf (s\<lparr>selectedEdgeStart := n\<rparr>) = timerOf s"
  by (simp_all add: timerOf_def)

lemma timerOf_showStep: "timerOf (showStep i s) = timerOf s"
  by (simp add: showStep_def Let_def timerOf_fold timerOf_resetNodeColor timerOf_colorNode
      timerOf_fields split: option.splits)

lemma timerOf_addNode: "timerOf (addNode pos s) = timerOf s"
  by (simp add: addNode_def Let_def timerOf_saveState timerOf_fields)

lemma timerOf_addEdge: "addEdge rw rnd input f t s = Inr s' \<Longrightarrow> timerOf s' = timerOf s"
  by (auto simp: addEdge_def Let_def timerOf_saveState timerOf_fields
      split: sum.splits if_splits enat.splits)

lemma timerOf_deleteNode: "timerOf (deleteNode r s) = timerOf s"
  by (simp add: deleteNode_def Let_def timerOf_saveState timerOf_fields)

lemma timerOf_deleteEdge: "timerOf (deleteEdge k s) = timerOf s"
  by (simp add: deleteEdge_def timerOf_saveState timerOf_updateAdjacencyList timerOf_fields)

lemma timerOf_handleClickEdge: "handleClickEdge k input s = Inr s' \<Longrightarrow> timerOf s' = timerOf s"
  by (auto simp: handleClickEdge_def timerOf_saveState timerOf_updateAdjacencyList timerOf_fields
      split: option.splits if_splits enat.splits)

lemma timerOf_setStartNode: "timerOf (setStartNode n s) = timerOf s"
  by (simp add: setStartNode_def Let_def timerOf_saveState timerOf_setColor timerOf_fields
      split: option.splits)

lemma timerOf_setGoalNode: "timerOf (setGoalNode n s) = timerOf s"
  by (simp add: setGoalNode_def Let_def timerOf_saveState timerOf_setColor timerOf_fields
      split: option.splits)

lemma timerOf_restoreState: "restoreState s = Inr s' \<Longrightarrow> timerOf s' = timerOf s"
  by (auto simp: restoreState_def Let_def timerOf_updateAdjacencyList timerOf_fields
      split: option.splits)

lemma timerOf_undo: "undo s = Inr s' \<Longrightarrow> timerOf s' = timerOf s"
  using timerOf_restoreState [of "s\<lparr>historyIndex := historyIndex s - 1\<rparr>" s']
  by (auto simp: undo_def timerOf_fields split: if_splits)

lemma timerOf_redo: "redo s = Inr s' \<Longrightarrow> timerOf s' = timerOf s"
  using timerOf_restoreState [of "s\<lparr>historyIndex := historyIndex s + 1\<rparr>" s']
  by (auto simp: redo_def timerOf_fields split: if_splits)

lemma timerOf_importNode: "timerOf (importNode n s) = timerOf s"
  by (cases n) (simp add: importNode_def timerOf_fields)

lemma timerOf_importEdge: "timerOf (importEdge d e s) = timerOf s"
  by (cases e) (simp add: importEdge_def Let_def timerOf_fields)

lemma timerOf_importGraph: "timerOf (importGraph d s) = timerOf s"
proof -
  have a: "timerOf (s\<lparr>nodes := [], edges := [], adj := [], selectedNodes := {}, searchResults := {}\<rparr>)
      = timerOf s" by (simp add: timerOf_fields)
  show ?thesis
    by (simp add: importGraph_def Let_def timerOf_saveState timerOf_setStartNode
        timerOf_setGoalNode timerOf_fold timerOf_importNode timerOf_importEdge timerOf_fields a
        split: option.splits)
qed

lemma timerOf_prevStep: "timerOf (prevStep s) = timerOf s"
  by (simp add: prevStep_def timerOf_showStep)

lemma timerOf_prepareAlgo: "prepareAlgo s = Inr s' \<Longrightarrow> timerOf s' = timerOf s"
  by (auto simp: prepareAlgo_def Let_def timerOf_showStep timerOf_fields split: if_splits sum.splits)

lemma timerOf_prepareIfEmpty: "prepareIfEmpty s = Inr s' \<Longrightarrow> timerOf s' = timerOf s"
  using timerOf_prepareAlgo [of s s']
  by (auto simp: prepareIfEmpty_def split: if_splits sum.splits error.splits)

lemma timerOf_nextStep: "nextStep s = Inr s' \<Longrightarrow> timerOf s' = timerOf s"
  by (auto simp: nextStep_def timerOf_showStep dest: timerOf_prepareIfEmpty
      split: sum.splits if_splits)


lemma timerOf_fire_other:
  assumes "ev \<notin> {Play, Pause, ChangeSpeed, Tick, ResetVisualization, ClearCanvas, NextStep}"
    and "fire ev s = Inr s'"
  shows "timerOf s' = timerOf s"
proof (cases ev)
  case (EdgeClick rw rnd input k)
  with assms(2) show ?thesis
    by (auto simp: fire_def timerOf_fields dest: timerOf_addEdge split: option.splits if_splits)
next
  case (EditWeight k input)
  with assms(2) show ?thesis
    by (auto simp: fire_def dest: timerOf_handleClickEdge split: if_splits)
next
  case Undo
  with assms(2) show ?thesis by (auto simp: fire_def dest: timerOf_undo)
next
  case Redo
  with assms(2) show ?thesis by (auto simp: fire_def dest: timerOf_redo)
next
  case (AddNode p)
  with assms(2) show ?thesis by (auto simp: fire_def timerOf_addNode)
next
  case (DeleteNode k)
  with assms(2) show ?thesis by (auto simp: fire_def timerOf_deleteNode split: option.splits)
next
  case (DeleteEdge k)
  with assms(2) show ?thesis by (auto simp: fire_def timerOf_deleteEdge split: if_splits)
next
  case (SetStart k)
  with assms(2) show ?thesis by (auto simp: fire_def timerOf_setStartNode split: option.splits)
next
  case (SetGoal k)
  with assms(2) show ?thesis by (auto simp: fire_def timerOf_setGoalNode split: option.splits)
next
  case (Import d)
  with assms(2) show ?thesis by (auto simp: fire_def timerOf_importGraph)
next
  case (SelectAlgo a)
  with assms(2) show ?thesis by (auto simp: fire_def timerOf_fields)
next
  case PrevStep
  with assms(2) show ?thesis by (auto simp: fire_def timerOf_prevStep)
qed (use assms(1) in simp_all)

lemma pause_timer:
  "intervalId (pause s) = None" "liveTimers (pause s) = liveTimers s - set_option (intervalId s)"
  "pause (pause s) = pause s"
  by (cases "intervalId s"; simp add: pause_def clearInterval_def)+

lemma stopTimer_timer:
  "intervalId (stopTimer s) = None" "liveTimers (stopTimer s) = liveTimers s - set_option (intervalId s)"
  by (cases "intervalId s"; simp add: stopTimer_def clearInterval_def)+

lemma intervalId_fold:
  "(\<And>x s. timerOf (f x s) = timerOf s) \<Longrightarrow> intervalId (fold f xs s) = intervalId s \<and>
     liveTimers (fold f xs s) = liveTimers s"
  using timerOf_fold [of f xs s] by (simp add: timerOf_def)

lemma resetVisualization_timer:
  "intervalId (resetVisualization s) = None"
  "liveTimers (resetVisualization s) = liveTimers s - set_option (intervalId s)"
  using intervalId_fold [of resetNodeColor "nodes (stopTimer (s\<lparr>steps := [], stepIndex := 0\<rparr>))"
      "stopTimer (s\<lparr>steps := [], stepIndex := 0\<rparr>)"]
  by (simp_all add: resetVisualization_def Let_def timerOf_resetNodeColor stopTimer_timer)

lemma clearCanvas_timer:
  "intervalId (clearCanvas s) = None"
  "liveTimers (clearCanvas s) = liveTimers s - set_option (intervalId s)"
  using timerOf_saveState [of "stopTimer (s\<lparr>nodes := [], edges := [], adj := [], startNode := None,
       goalNode := None, steps := [], stepIndex := 0, selectedNodes := {},
       searchResults := {}\<rparr>)"]
  by (simp_all add: clearCanvas_def timerOf_def stopTimer_timer)

lemma tick_timer:
  "\<not> advance s \<Longrightarrow> intervalId (tick s) = None"
  "\<not> advance s \<Longrightarrow> liveTimers (tick s) = liveTimers s - set_option (intervalId s)"
  "advance s \<Longrightarrow> timerOf (tick s) = timerOf s"
  by (cases "intervalId s"; simp add: tick_def clearInterval_def timerOf_showStep)+

lemma play_timer:
  assumes "play s = Inr s'"
  shows "intervalId s' = Some (timerCount s)"
    and "liveTimers s' = insert (timerCount s) (liveTimers s - set_option (intervalId s))"
proof -
  from assms obtain s1 where p: "prepareIfEmpty s = Inr s1"
    by (cases "prepareIfEmpty s") (simp_all add: play_def)
  from timerOf_prepareIfEmpty [OF p] have t: "intervalId s1 = intervalId s"
    "liveTimers s1 = liveTimers s" "timerCount s1 = timerCount s"
    by (simp_all add: timerOf_def)
  define s2 where "s2 = (if intervalId s1 \<noteq> None then clearInterval (intervalId s1) s1 else s1)"
  have s2: "timerCount s2 = timerCount s" "liveTimers s2 = liveTimers s - set_option (intervalId s)"
    unfolding s2_def using t by (cases "intervalId s"; simp add: clearInterval_def)+
  have "s' = s2\<lparr>intervalId := Some (timerCount s2),
      liveTimers := insert (timerCount s2) (liveTimers s2), timerCount := Suc (timerCount s2)\<rparr>"
    using assms p unfolding s2_def play_def by (simp add: Let_def)
  then show "intervalId s' = Some (timerCount s)"
    and "liveTimers s' = insert (timerCount s) (liveTimers s - set_option (intervalId s))"
    using s2 by simp_all
qed

text \<open>
  Claim C9, amended. \<^verbatim>\<open>pause\<close> can be called in any state, leaves no timer recorded,
  takes the recorded timer from the browser and is idempotent. It is not the only
  canceller: \<^verbatim>\<open>resetVisualization\<close> and \<^verbatim>\<open>clearCanvas\<close> cancel the timer in the same
  way, the timer cancels itself at a tick that cannot advance (and only then), and
  \<^verbatim>\<open>play\<close> cancels the recorded timer before it starts a new one, so a run started
  by \<^verbatim>\<open>play\<close> is never stepped by an older timer (the speed slider calls
  \<^verbatim>\<open>pause\<close> and then \<^verbatim>\<open>play\<close>). The editing handlers, undo, redo, import, the
  algorithm choice and \<^verbatim>\<open>prevStep\<close> leave the timer alone.
\<close>

theorem timer_cancellation:
  "intervalId (pause s) = None \<and> liveTimers (pause s) = liveTimers s - set_option (intervalId s) \<and>
   pause (pause s) = pause s \<and>
   intervalId (resetVisualization s) = None \<and>
   liveTimers (resetVisualization s) = liveTimers s - set_option (intervalId s) \<and>
   intervalId (clearCanvas s) = None \<and>
   liveTimers (clearCanvas s) = liveTimers s - set_option (intervalId s) \<and>
   (\<not> advance s \<longrightarrow> intervalId (tick s) = None \<and>
      liveTimers (tick s) = liveTimers s - set_option (intervalId s)) \<and>
   (advance s \<longrightarrow> timerOf (tick s) = timerOf s) \<and>
   (\<forall>s'. play s = Inr s' \<longrightarrow> intervalId s' = Some (timerCount s) \<and>
      liveTimers s' = insert (timerCount s) (liveTimers s - set_option (intervalId s))) \<and>
   (\<forall>ev s'. ev \<notin> {Play, Pause, ChangeSpeed, Tick, ResetVisualization, ClearCanvas, NextStep} \<and>
      fire ev s = Inr s' \<longrightarrow> timerOf s' = timerOf s)"
  using pause_timer [of s] resetVisualization_timer [of s] clearCanvas_timer [of s]
    tick_timer [of s] play_timer [of s] timerOf_fire_other [of _ s]
  by blast


theorem timer_cancellation_witness:
  "intervalId (after playing) = Some 0 \<and> liveTimers (after playing) = {0} \<and>
   intervalId (pause (after playing)) = None \<and> liveTimers (pause (after playing)) = {} \<and>
   liveTimers (resetVisualization (after playing)) = {} \<and>
   liveTimers (clearCanvas (after playing)) = {} \<and>
   advance (after playing) \<and> timerOf (tick (after playing)) = timerOf (after playing) \<and>
   (\<exists>s'. play (after playing) = Inr s' \<and> intervalId s' = Some 1 \<and> liveTimers s' = {1}) \<and>
   (\<exists>s'. fire (AddNode (5, 5)) (after playing) = Inr s' \<and> timerOf s' = timerOf (after playing)) \<and>
   \<not> advance (after (playing @ [Tick, Tick, Tick])) \<and>
   intervalId (after (playing @ [Tick, Tick, Tick])) = Some 0 \<and>
   intervalId (tick (after (playing @ [Tick, Tick, Tick]))) = None \<and>
   liveTimers (tick (after (playing @ [Tick, Tick, Tick]))) = {}"
proof -
  let ?p = "after playing" and ?l = "after (playing @ [Tick, Tick, Tick])"
  have p: "intervalId ?p = Some 0" "liveTimers ?p = {0}" "timerCount ?p = 1" "advance ?p"
    by code_simp+
  have l: "\<not> advance ?l" "intervalId ?l = Some 0" "liveTimers ?l = {0}"
    by code_simp+
  have "case play ?p of Inl e \<Rightarrow> False | Inr s' \<Rightarrow> True" by code_simp
  then obtain s1 where s1: "play ?p = Inr s1" by (cases "play ?p") simp_all
  have f: "fire (AddNode (5, 5)) ?p = Inr (addNode (5, 5) ?p)" by (simp add: fire_def)
  note a = timer_cancellation [of ?p] and b = timer_cancellation [of ?l]
  have a1: "intervalId (pause ?p) = None" "liveTimers (pause ?p) = {}"
    "liveTimers (resetVisualization ?p) = {}" "liveTimers (clearCanvas ?p) = {}"
    "timerOf (tick ?p) = timerOf ?p"
    using a p by simp_all
  have a2: "intervalId s1 = Some 1" "liveTimers s1 = {1}"
    using a s1 p by simp_all
  have a3: "timerOf (addNode (5, 5) ?p) = timerOf ?p"
    using a f by blast
  have b1: "intervalId (tick ?l) = None" "liveTimers (tick ?l) = {}"
    using b l by simp_all
  have e1: "\<exists>s'. play ?p = Inr s' \<and> intervalId s' = Some 1 \<and> liveTimers s' = {1}"
    using s1 a2 by blast
  have e2: "\<exists>s'. fire (AddNode (5, 5)) ?p = Inr s' \<and> timerOf s' = timerOf ?p"
    using f a3 by blast
  show ?thesis
    using p(1,2,4) l(1,2) a1 e1 e2 b1 by (intro conjI)
qed

text \<open>Every handler keeps the timers of the browser and the recorded handle in step.\<close>

lemma one_timer_fire:
  assumes "liveTimers s = set_option (intervalId s)" and "fire ev s = Inr s'"
  shows "liveTimers s' = set_option (intervalId s')"
proof (cases "ev \<in> {Play, Pause, ChangeSpeed, Tick, ResetVisualization, ClearCanvas, NextStep}")
  case False
  from timerOf_fire_other [OF False assms(2)] assms(1) show ?thesis by (simp add: timerOf_def)
next
  case True
  then consider "ev = Play" | "ev = Pause" | "ev = Tick" | "ev = ResetVisualization"
    | "ev = ClearCanvas" | "ev = NextStep" | "ev = ChangeSpeed" by auto
  then show ?thesis
  proof cases
    case 1
    with assms play_timer [of s s'] show ?thesis by (auto simp: fire_def)
  next
    case 2
    with assms pause_timer [of s] show ?thesis by (auto simp: fire_def)
  next
    case 3
    with assms tick_timer [of s] show ?thesis
      by (cases "advance s") (auto simp: fire_def timerOf_def split: if_splits)
  next
    case 4
    with assms resetVisualization_timer [of s] show ?thesis by (auto simp: fire_def)
  next
    case 5
    with assms clearCanvas_timer [of s] show ?thesis by (auto simp: fire_def)
  next
    case 6
    with assms timerOf_nextStep [of s s'] show ?thesis by (auto simp: fire_def timerOf_def)
  next
    case 7
    show ?thesis
    proof (cases "intervalId s")
      case None
      with 7 assms show ?thesis by (simp add: fire_def)
    next
      case (Some h)
      with 7 assms(2) have "play (pause s) = Inr s'" by (simp add: fire_def)
      from play_timer [OF this] assms(1) show ?thesis by (simp add: pause_timer)
    qed
  qed
qed

lemma one_timer_run:
  "run evs s = Some s' \<Longrightarrow> liveTimers s = set_option (intervalId s) \<Longrightarrow>
   liveTimers s' = set_option (intervalId s')"
proof (induction evs arbitrary: s)
  case Nil
  then show ?case by simp
next
  case (Cons ev evs)
  show ?case
  proof (cases "fire ev s")
    case (Inl e)
    with Cons show ?thesis by (auto split: if_splits)
  next
    case (Inr s1)
    with Cons.prems one_timer_fire [of s ev s1] Cons.IH [of s1] show ?thesis by simp
  qed
qed

subsection \<open>Further properties\<close>

text \<open>
  \<^verbatim>\<open>deleteNode\<close> on the very object that is the start (or the goal) resets that
  selector, and the next run stops at the missing-start alert; the other selector stays
  as it is. The id of the deleted node leaves the multi-selection, the search results
  and the node array.
\<close>

lemma selectors_saveState:
  "startNode (saveState s) = startNode s" "goalNode (saveState s) = goalNode s"
  "selectedNodes (saveState s) = selectedNodes s" "searchResults (saveState s) = searchResults s"
  "nodes (saveState s) = nodes s" "heap (saveState s) = heap s"
  by (simp_all add: saveState_def Let_def)

theorem deleteNode_resets_selectors:
  "(startNode s = Some r \<longrightarrow> startNode (deleteNode r s) = None \<and>
      prepareAlgo (deleteNode r s) = Inl MissingStart) \<and>
   (goalNode s = Some r \<longrightarrow> goalNode (deleteNode r s) = None) \<and>
   (startNode s \<noteq> Some r \<longrightarrow> startNode (deleteNode r s) = startNode s) \<and>
   (goalNode s \<noteq> Some r \<longrightarrow> goalNode (deleteNode r s) = goalNode s) \<and>
   nid (obj s r) \<notin> selectedNodes (deleteNode r s) \<and>
   nid (obj s r) \<notin> searchResults (deleteNode r s) \<and>
   nid (obj s r) \<notin> set (map (\<lambda>n. nid (obj (deleteNode r s) n)) (nodes (deleteNode r s)))"
proof -
  have o: "obj (deleteNode r s) = obj s"
    by (simp add: obj_def fun_eq_iff deleteNode_def Let_def selectors_saveState)
  show ?thesis
    unfolding o
    by (auto simp: deleteNode_def Let_def selectors_saveState prepareAlgo_def)
qed

theorem deleteNode_resets_selectors_witness:
  "startNode (after apart) = Some 0 \<and> goalNode (after apart) = Some 1 \<and>
   startNode (deleteNode 0 (after apart)) = None \<and>
   prepareAlgo (deleteNode 0 (after apart)) = Inl MissingStart \<and>
   goalNode (deleteNode 0 (after apart)) = Some 1 \<and>
   goalNode (deleteNode 1 (after apart)) = None \<and>
   startNode (deleteNode 1 (after apart)) = Some 0"
proof -
  have a: "startNode (after apart) = Some 0" "goalNode (after apart) = Some 1" by code_simp+
  show ?thesis
    using deleteNode_resets_selectors [of "after apart" 0]
      deleteNode_resets_selectors [of "after apart" 1] a
    by simp
qed

text \<open>
  What \<^verbatim>\<open>updateAdjacencyList\<close> leaves: the array of every id is exactly what the
  stored edges contribute to it, in the order of the edges, and every node of
  \<^verbatim>\<open>state.nodes\<close> has an entry.
\<close>

lemma adjHas_adjPush: "adjHas a k \<Longrightarrow> adjHas (adjPush k' e a) k"
  by (simp add: adjHas_def adjPush_def update_conv')

lemma adjHas_fold_edges:
  "adjHas a k \<Longrightarrow> adjHas (fold (\<lambda>e a.
       if \<not> dir then adjPush (eto e) (efrom e, eweight e) (adjPush (efrom e) (eto e, eweight e) a)
       else adjPush (efrom e) (eto e, eweight e) a) es a) k"
  by (induction es arbitrary: a) (simp_all add: adjHas_adjPush)

lemma adjHas_fold_nodes:
  "r \<in> set rs \<or> adjHas a (g r) \<Longrightarrow> adjHas (fold (\<lambda>r a. AList.update (g r) [] a) rs a) (g r)"
  by (induction rs arbitrary: a) (auto simp: adjHas_def update_conv')

theorem rebuilt_adjacency_reflects_edges:
  "adjGet (adj (updateAdjacencyList s)) u = concat (map (contribution (directed s) u) (edges s)) \<and>
   list_all (\<lambda>r. adjHas (adj (updateAdjacencyList s)) (nid (obj s r))) (nodes s)"
proof -
  have "adjHas (adj (updateAdjacencyList s)) (nid (obj s r))" if "r \<in> set (nodes s)" for r
    using adjHas_fold_nodes [of r "nodes s" "[]" "\<lambda>r. nid (obj s r)"] that
    by (simp add: updateAdjacencyList_def Let_def adjHas_fold_edges)
  then show ?thesis
    by (simp add: adjGet_updateAdjacencyList list_all_iff)
qed

text \<open>
  Redo truncation: a snapshot recorded after an \<^verbatim>\<open>undo\<close> is the last entry of the
  history, so \<^verbatim>\<open>redo\<close> does nothing after it.
\<close>

theorem redo_truncated:
  assumes "undo s = Inr s1"
  shows "redo (saveState s1) = Inr (saveState s1)"
proof -
  have "historyIndex (saveState s1) = int (length (history (saveState s1))) - 1"
    by (auto simp: saveState_def Let_def slice0_def min_def)
  then show ?thesis by (simp add: redo_def)
qed


theorem redo_truncated_witness:
  "\<exists>s1. undo (after [AddNode (0, 0), AddNode (100, 0)]) = Inr s1 \<and>
      historyIndex s1 = 0 \<and> length (history s1) = 2 \<and>
      length (history (saveState s1)) = 2 \<and> redo (saveState s1) = Inr (saveState s1)"
proof -
  let ?s = "after [AddNode (0, 0), AddNode (100, 0)]"
  have "case undo ?s of Inl e \<Rightarrow> False
        | Inr s1 \<Rightarrow> historyIndex s1 = 0 \<and> length (history s1) = 2 \<and>
                    length (history (saveState s1)) = 2"
    by code_simp
  then obtain s1 where s1: "undo ?s = Inr s1" "historyIndex s1 = 0" "length (history s1) = 2"
      "length (history (saveState s1)) = 2"
    by (cases "undo ?s") auto
  from redo_truncated [OF s1(1)] s1 show ?thesis by blast
qed

text \<open>
  Breadth-first search on the chain 0-1-2 from 0 visits 0, then 1, then 2, and its last
  step has all three visited.
\<close>

theorem bfs_chain_order:
  "map_option graphOf (run chain init) = Some ([0, 1, 2], [(0, 1, 1), (1, 2, 1)], False, Some 0, None) \<and>
   map_option traceOf (run chain init) =
     Some [(StartingBFS (Label ''0''), [0], [0], []),
           (VisitingNode (Label ''0''), [], [0], []),
           (NeighborsOf (Label ''0'') [1], [], [0], []),
           (DiscoveredNode 1, [1], [0, 1], []),
           (VisitingNode (Label ''1''), [], [0, 1], []),
           (NeighborsOf (Label ''1'') [0, 2], [], [0, 1], []),
           (DiscoveredNode 2, [2], [0, 1, 2], []),
           (VisitingNode (Label ''2''), [], [0, 1, 2], []),
           (NeighborsOf (Label ''2'') [1], [], [0, 1, 2], []),
           (BFSCompleted, [], [0, 1, 2], [])]"
  by code_simp


text \<open>
  At most one timer: in every state a session reaches from a fresh one, the timers the
  browser runs are exactly the one \<^verbatim>\<open>state.intervalId\<close> records.
\<close>

theorem one_timer: "run evs init = Some s \<Longrightarrow> liveTimers s = set_option (intervalId s)"
  using one_timer_run [of evs init s] by (simp add: init_def)

theorem one_timer_witness:
  "\<exists>s. run playing init = Some s \<and> intervalId s = Some 0 \<and>
     liveTimers s = set_option (intervalId s)"
proof -
  have "case run playing init of None \<Rightarrow> False | Some s \<Rightarrow> intervalId s = Some 0" by code_simp
  then obtain s where s: "run playing init = Some s" "intervalId s = Some 0"
    by (cases "run playing init") auto
  from one_timer [OF s(1)] s show ?thesis by blast
qed

subsection \<open>Unreachable goals in general\<close>

text \<open>
  The two shortest-path generators on any graph whose goal cannot be reached from the
  start node. First the relaxation of the neighbours of one node, then the loop
  invariants, then the loops.
\<close>

lemma map_of_fold_update:
  "map_of (fold (\<lambda>i d. AList.update i (f i) d) is a) k =
     (if k \<in> set is then Some (f k) else map_of a k)"
  by (induction "is" arbitrary: a) (auto simp: update_conv')

lemma findNode_nodeIds:
  assumes "i \<in> set (nodeIds s)"
  shows "\<exists>r. findNode s i = Some r \<and> nid (obj s r) = i"
proof (cases "findNode s i")
  case None
  with assms show ?thesis by (auto simp: findNode_def nodeIds_def find_None_iff)
next
  case (Some r)
  then show ?thesis by (auto simp: findNode_def find_Some_iff)
qed

lemma pickMin_Nil: "pickMin d queue = None \<longleftrightarrow> queue = []"
proof -
  have "fold (\<lambda>nodeId minNode.
             (case minNode of None \<Rightarrow> Some nodeId
              | Some m \<Rightarrow> if lessNum (map_of d nodeId) (map_of d m) then Some nodeId
                          else Some m)) queue acc = None \<longleftrightarrow> queue = [] \<and> acc = None" for acc
    by (induction queue arbitrary: acc) (auto split: option.splits)
  then show ?thesis by (simp add: pickMin_def)
qed

lemma pickMin_infinite:
  assumes "pickMin d queue = Some m" and "set queue \<subseteq> dom (map_of d)" and "m \<notin> finiteAt d"
  shows "\<forall>q\<in>set queue. q \<notin> finiteAt d"
proof -
  have inf: "x \<notin> finiteAt d \<longleftrightarrow> map_of d x = Some \<infinity>" if "x \<in> dom (map_of d)" for x
    using that by (auto simp: finiteAt_def dom_def)
  have "(\<forall>a. acc = Some a \<longrightarrow> a \<notin> finiteAt d) \<and> (\<forall>q\<in>set queue. q \<notin> finiteAt d)"
    if "fold (\<lambda>nodeId minNode.
             (case minNode of None \<Rightarrow> Some nodeId
              | Some m \<Rightarrow> if lessNum (map_of d nodeId) (map_of d m) then Some nodeId
                          else Some m)) queue acc = Some m"
      and "set queue \<subseteq> dom (map_of d)" and "\<forall>a. acc = Some a \<longrightarrow> a \<in> dom (map_of d)"
    for acc
    using that
  proof (induction queue arbitrary: acc)
    case Nil
    then show ?case using assms(3) by simp
  next
    case (Cons x queue)
    let ?acc' = "(case acc of None \<Rightarrow> Some x
              | Some m \<Rightarrow> if lessNum (map_of d x) (map_of d m) then Some x else Some m)"
    have x: "x \<in> dom (map_of d)" using Cons.prems(2) by simp
    have d': "\<forall>a. ?acc' = Some a \<longrightarrow> a \<in> dom (map_of d)"
      using x Cons.prems(3) by (auto split: option.splits if_splits)
    from Cons.IH [of ?acc'] Cons.prems d'
    have ih: "\<forall>a. ?acc' = Some a \<longrightarrow> a \<notin> finiteAt d" "\<forall>q\<in>set queue. q \<notin> finiteAt d"
      by simp_all
    show ?case
    proof (cases acc)
      case None
      with ih show ?thesis by simp
    next
      case (Some a)
      then have a: "a \<in> dom (map_of d)" using Cons.prems(3) by simp
      show ?thesis
      proof (cases "lessNum (map_of d x) (map_of d a)")
        case True
        with Some ih(1) have "x \<notin> finiteAt d" by simp
        then have "map_of d x = Some \<infinity>" using inf [OF x] by simp
        with True have False by (auto simp: lessNum_def split: option.splits)
        then show ?thesis ..
      next
        case False
        with Some ih(1) have "a \<notin> finiteAt d" by simp
        then have ai: "map_of d a = Some \<infinity>" using inf [OF a] by simp
        from x obtain dx where dx: "map_of d x = Some dx" by auto
        with False ai have "dx = \<infinity>" by (simp add: lessNum_def)
        with dx have "x \<notin> finiteAt d" by (simp add: finiteAt_def)
        with ih(2) Some \<open>a \<notin> finiteAt d\<close> show ?thesis by simp
      qed
    qed
  qed
  from this [of None] assms show ?thesis by (simp add: pickMin_def)
qed

lemma finiteAt_update:
  "finiteAt (AList.update v (enat n) d) = insert v (finiteAt d)"
  by (auto simp: finiteAt_def update_conv')

lemma finiteAt_dom: "finiteAt d \<subseteq> dom (map_of d)"
  by (auto simp: finiteAt_def)

lemma relax_cases:
  assumes "relax u q nb (d, p, acc) = (d', p', acc')"
  shows "(d' = d \<and> p' = p \<and> acc' = acc) \<or>
    (\<exists>n. u \<in> finiteAt d \<and> fst nb \<in> set q \<and> fst nb \<in> dom (map_of d) \<and>
       d' = AList.update (fst nb) (enat n) d \<and> p' = AList.update (fst nb) (Some u) p)"
proof (cases "fst nb \<in> set q")
  case False
  with assms show ?thesis by (simp add: relax_def)
next
  case True
  show ?thesis
  proof (cases "map_of d u")
    case None
    with assms True show ?thesis by (simp add: relax_def)
  next
    case (Some dm)
    show ?thesis
    proof (cases "lessNum (Some (dm + enat (snd nb))) (map_of d (fst nb))")
      case False
      with assms True Some show ?thesis by (simp add: relax_def)
    next
      case less: True
      then obtain dv where dv: "map_of d (fst nb) = Some dv" "dm + enat (snd nb) < dv"
        by (cases "map_of d (fst nb)") (auto simp: lessNum_def)
      then obtain n where n: "dm + enat (snd nb) = enat n"
        by (cases "dm + enat (snd nb)") auto
      then obtain m where "dm = enat m" by (cases dm) auto
      with Some have "u \<in> finiteAt d" by (simp add: finiteAt_def)
      moreover have "d' = AList.update (fst nb) (enat n) d \<and> p' = AList.update (fst nb) (Some u) p"
        using assms True Some less n by (simp add: relax_def Let_def)
      ultimately show ?thesis using True dv by auto
    qed
  qed
qed

lemma relax_unchanged_finite:
  assumes "relax u q nb (d, p, acc) = (d', p', acc')"
    and "u \<in> finiteAt d" and "fst nb \<in> set q" and "fst nb \<in> dom (map_of d)"
  shows "fst nb \<in> finiteAt d'"
proof -
  from assms(2) obtain m where m: "map_of d u = Some (enat m)" by (auto simp: finiteAt_def)
  from assms(4) obtain dv where dv: "map_of d (fst nb) = Some dv" by auto
  show ?thesis
  proof (cases "lessNum (Some (enat m + enat (snd nb))) (Some dv)")
    case True
    with assms(1,3) m dv have "d' = AList.update (fst nb) (enat (m + snd nb)) d"
      by (simp add: relax_def Let_def)
    then show ?thesis by (simp add: finiteAt_update)
  next
    case False
    then obtain k where "dv = enat k" by (cases dv) (auto simp: lessNum_def)
    moreover from False assms(1,3) m dv have "d' = d" by (simp add: relax_def Let_def)
    ultimately show ?thesis using dv by (simp add: finiteAt_def)
  qed
qed

lemma fold_relax_props:
  assumes "fold (relax u q) nbs (d, p, acc) = (d', p', acc')"
  shows "dom (map_of d') = dom (map_of d) \<and>
    finiteAt d \<subseteq> finiteAt d' \<and>
    finiteAt d' \<subseteq> finiteAt d \<union> {v \<in> fst ` set nbs. v \<in> set q \<and> u \<in> finiteAt d} \<and>
    (u \<in> finiteAt d \<longrightarrow> (\<forall>v\<in>fst ` set nbs. v \<in> set q \<and> v \<in> dom (map_of d) \<longrightarrow> v \<in> finiteAt d')) \<and>
    (\<forall>k. k \<notin> finiteAt d' \<longrightarrow> map_of p' k = map_of p k)"
  using assms
proof (induction nbs arbitrary: d p acc)
  case Nil
  then show ?case by simp
next
  case (Cons nb nbs)
  obtain d1 p1 acc1 where r: "relax u q nb (d, p, acc) = (d1, p1, acc1)"
    by (cases "relax u q nb (d, p, acc)") auto
  have f1: "dom (map_of d1) = dom (map_of d) \<and> finiteAt d \<subseteq> finiteAt d1 \<and>
    finiteAt d1 \<subseteq> finiteAt d \<union> {v. v = fst nb \<and> v \<in> set q \<and> u \<in> finiteAt d} \<and>
    (\<forall>k. k \<notin> finiteAt d1 \<longrightarrow> map_of p1 k = map_of p k)"
    using relax_cases [OF r]
  proof (elim disjE exE conjE)
    assume "d1 = d" "p1 = p"
    then show ?thesis by simp
  next
    fix n assume a: "u \<in> finiteAt d" "fst nb \<in> set q" "fst nb \<in> dom (map_of d)"
      "d1 = AList.update (fst nb) (enat n) d" "p1 = AList.update (fst nb) (Some u) p"
    have "dom (map_of d1) = insert (fst nb) (dom (map_of d))"
      unfolding a(4) by (simp add: update_conv')
    with a show ?thesis by (auto simp: finiteAt_update update_conv')
  qed
  have uf: "u \<in> finiteAt d1 \<longleftrightarrow> u \<in> finiteAt d" using f1 by auto
  have "fold (relax u q) nbs (relax u q nb (d, p, acc)) = (d', p', acc')"
    using Cons.prems by simp
  then have f: "fold (relax u q) nbs (d1, p1, acc1) = (d', p', acc')"
    unfolding r .
  note ih = Cons.IH [OF f]
  note ih1 = ih [THEN conjunct1] and ih2 = ih [THEN conjunct2, THEN conjunct1]
    and ih3 = ih [THEN conjunct2, THEN conjunct2, THEN conjunct1]
    and ih4 = ih [THEN conjunct2, THEN conjunct2, THEN conjunct2, THEN conjunct1]
    and ih5 = ih [THEN conjunct2, THEN conjunct2, THEN conjunct2, THEN conjunct2]
  note g1 = f1 [THEN conjunct1] and g2 = f1 [THEN conjunct2, THEN conjunct1]
    and g3 = f1 [THEN conjunct2, THEN conjunct2, THEN conjunct1]
    and g4 = f1 [THEN conjunct2, THEN conjunct2, THEN conjunct2]
  have c1: "dom (map_of d') = dom (map_of d)" using ih1 g1 by simp
  have c2: "finiteAt d \<subseteq> finiteAt d'" using g2 ih2 by (rule subset_trans)
  have c3: "finiteAt d' \<subseteq> finiteAt d \<union> {v \<in> fst ` set (nb # nbs). v \<in> set q \<and> u \<in> finiteAt d}"
  proof
    fix x assume "x \<in> finiteAt d'"
    with ih3 have "x \<in> finiteAt d1 \<or> (x \<in> fst ` set nbs \<and> x \<in> set q \<and> u \<in> finiteAt d1)"
      by blast
    then show "x \<in> finiteAt d \<union> {v \<in> fst ` set (nb # nbs). v \<in> set q \<and> u \<in> finiteAt d}"
    proof
      assume "x \<in> finiteAt d1"
      with g3 have "x \<in> finiteAt d \<or> (x = fst nb \<and> x \<in> set q \<and> u \<in> finiteAt d)" by blast
      then show ?thesis by auto
    next
      assume "x \<in> fst ` set nbs \<and> x \<in> set q \<and> u \<in> finiteAt d1"
      then show ?thesis using uf by auto
    qed
  qed
  have c4: "u \<in> finiteAt d \<longrightarrow>
      (\<forall>v\<in>fst ` set (nb # nbs). v \<in> set q \<and> v \<in> dom (map_of d) \<longrightarrow> v \<in> finiteAt d')"
  proof (intro impI ballI)
    fix v assume u: "u \<in> finiteAt d" and v: "v \<in> fst ` set (nb # nbs)"
      and vq: "v \<in> set q \<and> v \<in> dom (map_of d)"
    from v have "v = fst nb \<or> v \<in> fst ` set nbs" by auto
    then show "v \<in> finiteAt d'"
    proof
      assume "v = fst nb"
      with relax_unchanged_finite [OF r u] vq have "v \<in> finiteAt d1" by simp
      with ih2 show ?thesis by blast
    next
      assume "v \<in> fst ` set nbs"
      moreover have "u \<in> finiteAt d1" using u uf by simp
      moreover have "v \<in> dom (map_of d1)" using vq g1 by simp
      ultimately show ?thesis using ih4 vq by blast
    qed
  qed
  have c5: "\<forall>k. k \<notin> finiteAt d' \<longrightarrow> map_of p' k = map_of p k"
  proof (intro allI impI)
    fix k assume k: "k \<notin> finiteAt d'"
    then have "k \<notin> finiteAt d1" using ih2 by blast
    with g4 have "map_of p1 k = map_of p k" by simp
    moreover from ih5 k have "map_of p' k = map_of p1 k" by simp
    ultimately show "map_of p' k = map_of p k" by simp
  qed
  show ?case by (intro conjI c1 c2 c3 c4 c5)
qed

lemma dInv_closed:
  assumes "dInv s queue d p" and "\<forall>q\<in>set queue. q \<notin> finiteAt d"
  shows "finiteAt d = reachable s"
proof
  show "finiteAt d \<subseteq> reachable s" using assms(1) by (simp add: dInv_def)
  show "reachable s \<subseteq> finiteAt d"
  proof
    fix x assume "x \<in> reachable s"
    then show "x \<in> finiteAt d"
    proof (induction rule: reachable.induct)
      case (start st)
      with assms(1) show ?case by (auto simp: dInv_def)
    next
      case (step u v w)
      have "u \<notin> set queue" using step.IH assms(2) by blast
      moreover have "v \<in> fst ` set (adjGet (adj s) u)" using step.hyps(2) by force
      ultimately show ?case using assms(1) step.IH step.hyps(3) unfolding dInv_def by blast
    qed
  qed
qed

lemma dInv_step:
  assumes inv: "dInv s queue d p" and pick: "pickMin d queue = Some u"
    and f: "fold (relax u (remove1 u queue)) (adjGet (adj s) u) (d, p, acc) = (d', p', acc')"
  shows "dInv s (remove1 u queue) d' p'"
proof -
  let ?q = "remove1 u queue" and ?nbs = "adjGet (adj s) u"
  note fp = fold_relax_props [OF f]
  note p1 = fp [THEN conjunct1] and p2 = fp [THEN conjunct2, THEN conjunct1]
    and p3 = fp [THEN conjunct2, THEN conjunct2, THEN conjunct1]
    and p4 = fp [THEN conjunct2, THEN conjunct2, THEN conjunct2, THEN conjunct1]
    and p5 = fp [THEN conjunct2, THEN conjunct2, THEN conjunct2, THEN conjunct2]
  from inv have i1: "dom (map_of d) = set (nodeIds s)" and i2: "set queue \<subseteq> set (nodeIds s)"
    and i3: "distinct queue" and i4: "finiteAt d \<subseteq> reachable s"
    and i5: "\<exists>st. startNode s = Some st \<and> nid (obj s st) \<in> finiteAt d"
    and i6: "\<forall>u\<in>finiteAt d. u \<notin> set queue \<longrightarrow>
        (\<forall>v\<in>fst ` set (adjGet (adj s) u). v \<in> set (nodeIds s) \<longrightarrow> v \<in> finiteAt d)"
    and i7: "(\<exists>x\<in>set (nodeIds s) - set queue. x \<notin> finiteAt d) \<longrightarrow> (\<forall>q\<in>set queue. q \<notin> finiteAt d)"
    and i8: "\<forall>k\<in>set (nodeIds s). k \<notin> finiteAt d \<longrightarrow> map_of p k = Some None"
    by (simp_all add: dInv_def)
  have uq: "u \<in> set queue" using pick by (rule pickMin_in_queue)
  have sq: "set ?q = set queue - {u}" using i3 by simp
  have uinf: "\<forall>q\<in>set queue. q \<notin> finiteAt d" if "u \<notin> finiteAt d"
    using pickMin_infinite [OF pick _ that] i1 i2 by simp
  have same: "finiteAt d' = finiteAt d" if "u \<notin> finiteAt d"
    using p2 p3 that by auto
  have j1: "dom (map_of d') = set (nodeIds s)" using p1 i1 by simp
  have j2: "set ?q \<subseteq> set (nodeIds s)" using sq i2 by auto
  have j3: "distinct ?q" using i3 by simp
  have j4: "finiteAt d' \<subseteq> reachable s"
  proof
    fix x assume "x \<in> finiteAt d'"
    with p3 have "x \<in> finiteAt d \<or> (x \<in> fst ` set ?nbs \<and> x \<in> set ?q \<and> u \<in> finiteAt d)"
      by blast
    then show "x \<in> reachable s"
    proof
      assume "x \<in> finiteAt d" with i4 show ?thesis by blast
    next
      assume a: "x \<in> fst ` set ?nbs \<and> x \<in> set ?q \<and> u \<in> finiteAt d"
      then obtain w where w: "(x, w) \<in> set ?nbs" by force
      have r1: "u \<in> reachable s" using a i4 by blast
      have r3: "x \<in> set (nodeIds s)" using a j2 by blast
      show ?thesis by (rule reachable.step [OF r1 w r3])
    qed
  qed
  have j5: "\<exists>st. startNode s = Some st \<and> nid (obj s st) \<in> finiteAt d'"
    using i5 p2 by blast
  have j6: "\<forall>x\<in>finiteAt d'. x \<notin> set ?q \<longrightarrow>
        (\<forall>v\<in>fst ` set (adjGet (adj s) x). v \<in> set (nodeIds s) \<longrightarrow> v \<in> finiteAt d')"
  proof (intro ballI impI)
    fix x v assume x: "x \<in> finiteAt d'" "x \<notin> set ?q"
      and v: "v \<in> fst ` set (adjGet (adj s) x)" "v \<in> set (nodeIds s)"
    have xd: "x \<in> finiteAt d"
    proof (rule ccontr)
      assume "x \<notin> finiteAt d"
      with p3 x(1) have "x \<in> set ?q" by blast
      with x(2) show False by simp
    qed
    show "v \<in> finiteAt d'"
    proof (cases "x = u")
      case False
      with x(2) sq have "x \<notin> set queue" by simp
      with i6 xd v have "v \<in> finiteAt d" by blast
      with p2 show ?thesis by blast
    next
      case True
      show ?thesis
      proof (cases "v \<in> set ?q")
        case True
        moreover have "v \<in> dom (map_of d)" using v(2) i1 by simp
        ultimately show ?thesis using p4 xd v(1) \<open>x = u\<close> by blast
      next
        case False
        have "v \<in> finiteAt d"
        proof (cases "v = u")
          case True with xd \<open>x = u\<close> show ?thesis by simp
        next
          case False
          with \<open>v \<notin> set ?q\<close> sq have "v \<notin> set queue" by simp
          show ?thesis
          proof (rule ccontr)
            assume "v \<notin> finiteAt d"
            with i7 v(2) \<open>v \<notin> set queue\<close> have "\<forall>q\<in>set queue. q \<notin> finiteAt d" by blast
            with uq xd \<open>x = u\<close> show False by blast
          qed
        qed
        with p2 show ?thesis by blast
      qed
    qed
  qed
  have j7: "(\<exists>x\<in>set (nodeIds s) - set ?q. x \<notin> finiteAt d') \<longrightarrow> (\<forall>q\<in>set ?q. q \<notin> finiteAt d')"
  proof (intro impI)
    assume "\<exists>x\<in>set (nodeIds s) - set ?q. x \<notin> finiteAt d'"
    then obtain x where x: "x \<in> set (nodeIds s)" "x \<notin> set ?q" "x \<notin> finiteAt d'" by blast
    have xd: "x \<notin> finiteAt d" using x(3) p2 by blast
    have "u \<notin> finiteAt d"
    proof (cases "x = u")
      case True with xd show ?thesis by simp
    next
      case False
      with x(2) sq have "x \<notin> set queue" by simp
      with i7 x(1) xd have "\<forall>q\<in>set queue. q \<notin> finiteAt d" by blast
      with uq show ?thesis by blast
    qed
    from uinf [OF this] same [OF this] sq show "\<forall>q\<in>set ?q. q \<notin> finiteAt d'" by simp
  qed
  have j8: "\<forall>k\<in>set (nodeIds s). k \<notin> finiteAt d' \<longrightarrow> map_of p' k = Some None"
  proof (intro ballI impI)
    fix k assume k: "k \<in> set (nodeIds s)" "k \<notin> finiteAt d'"
    then have "k \<notin> finiteAt d" using p2 by blast
    with i8 k(1) have "map_of p k = Some None" by blast
    with p5 k(2) show "map_of p' k = Some None" by simp
  qed
  show ?thesis unfolding dInv_def by (intro conjI j1 j2 j3 j4 j5 j6 j7 j8)
qed

lemma walkBack_null:
  assumes "map_of p g = Some None"
  shows "walkBack (length p) p (Some g) [] = Some [g]"
proof -
  from assms have "p \<noteq> []" by auto
  then obtain n where "length p = Suc n" by (cases p) auto
  with assms show ?thesis by simp
qed

lemma dijkstraLoop_unreachable:
  assumes "dInv s queue d p" and "goalNode s = Some g" and "nid (obj s g) \<notin> reachable s"
  shows "\<exists>d' acc'. dijkstraLoop s queue d p acc = Inr (d', acc') \<and>
           finiteAt d' = reachable s \<and> dom (map_of d') = set (nodeIds s) \<and>
           (nid (obj s g) \<in> set queue \<longrightarrow>
              (\<exists>x\<in>set acc'. desc x = FoundShortestPath (Some \<infinity>) \<and> path x = [nid (obj s g)]))"
  using assms(1)
proof (induction "length queue" arbitrary: queue d p acc rule: less_induct)
  case less
  note inv = less.prems
  from inv have i1: "dom (map_of d) = set (nodeIds s)" and i2: "set queue \<subseteq> set (nodeIds s)"
    and i3: "distinct queue"
    and i8: "\<forall>k\<in>set (nodeIds s). k \<notin> finiteAt d \<longrightarrow> map_of p k = Some None"
    by (simp_all add: dInv_def)
  show ?case
  proof (cases "pickMin d queue")
    case None
    then have q: "queue = []" by (simp add: pickMin_Nil)
    have "finiteAt d = reachable s" using inv q by (intro dInv_closed [OF inv]) simp
    moreover have "dijkstraLoop s queue d p acc = Inr (d, acc)"
      using None by (subst dijkstraLoop.simps) simp
    ultimately show ?thesis using i1 q by simp
  next
    case (Some u)
    have uq: "u \<in> set queue" using Some by (rule pickMin_in_queue)
    then have "u \<in> set (nodeIds s)" using i2 by blast
    then obtain r where r: "findNode s u = Some r" using findNode_nodeIds by blast
    show ?thesis
    proof (cases "u = nid (obj s g)")
      case True
      have ninf: "u \<notin> finiteAt d"
      proof
        assume "u \<in> finiteAt d"
        moreover have "finiteAt d \<subseteq> reachable s" using inv by (simp add: dInv_def)
        ultimately show False using assms(3) True by blast
      qed
      have "\<forall>q\<in>set queue. q \<notin> finiteAt d"
        using pickMin_infinite [OF Some _ ninf] i1 i2 by simp
      then have cl: "finiteAt d = reachable s" by (rule dInv_closed [OF inv])
      have "u \<in> dom (map_of d)" using \<open>u \<in> set (nodeIds s)\<close> i1 by simp
      then have du: "map_of d u = Some \<infinity>" using ninf
        by (auto simp: finiteAt_def dom_def)
      have "map_of p u = Some None" using i8 \<open>u \<in> set (nodeIds s)\<close> ninf by blast
      then have wb: "walkBack (length p) p (Some u) [] = Some [u]" by (rule walkBack_null)
      have "dijkstraLoop s queue d p acc =
          Inr (d, (acc @ [dijkstraStep (VisitingWithDistance (labelOrId (obj s r)) (map_of d u))
                    (remove1 u queue) [] d]) @
                  [dijkstraStep (FoundShortestPath (Some \<infinity>)) (remove1 u queue) [u] d])"
        using Some r assms(2) True wb du by (subst dijkstraLoop.simps) (simp add: Let_def)
      moreover have "desc (dijkstraStep (FoundShortestPath (Some \<infinity>)) (remove1 u queue) [u] d)
            = FoundShortestPath (Some \<infinity>)"
        and "path (dijkstraStep (FoundShortestPath (Some \<infinity>)) (remove1 u queue) [u] d) = [u]"
        by (simp_all add: dijkstraStep_def)
      ultimately show ?thesis using cl i1 True by auto
    next
      case False
      let ?acc1 = "acc @ [dijkstraStep (VisitingWithDistance (labelOrId (obj s r)) (map_of d u))
                    (remove1 u queue) [] d]"
      obtain d1 p1 acc2 where f: "fold (relax u (remove1 u queue)) (adjGet (adj s) u) (d, p, ?acc1)
          = (d1, p1, acc2)" by (cases "fold (relax u (remove1 u queue)) (adjGet (adj s) u) (d, p, ?acc1)") auto
      have inv': "dInv s (remove1 u queue) d1 p1" by (rule dInv_step [OF inv Some f])
      have "length (remove1 u queue) < length queue"
        using uq by (simp add: length_remove1) (cases queue; auto)
      from less.hyps [OF this inv', of acc2]
      obtain d' acc' where res: "dijkstraLoop s (remove1 u queue) d1 p1 acc2 = Inr (d', acc')"
        and fin: "finiteAt d' = reachable s" and dm: "dom (map_of d') = set (nodeIds s)"
        and fnd: "nid (obj s g) \<in> set (remove1 u queue) \<longrightarrow>
              (\<exists>x\<in>set acc'. desc x = FoundShortestPath (Some \<infinity>) \<and> path x = [nid (obj s g)])"
        by blast
      have "dijkstraLoop s queue d p acc = dijkstraLoop s (remove1 u queue) d1 p1 acc2"
        using Some r assms(2) False f by (subst dijkstraLoop.simps) (simp add: Let_def)
      with res have "dijkstraLoop s queue d p acc = Inr (d', acc')" by simp
      moreover have "nid (obj s g) \<in> set queue \<longrightarrow> nid (obj s g) \<in> set (remove1 u queue)"
        using False i3 by simp
      ultimately show ?thesis using fin dm fnd by blast
    qed
  qed
qed

lemma visited_finiteAt:
  "set (filter (\<lambda>k. lessNum (map_of d k) (Some \<infinity>)) (map fst d)) = finiteAt d"
proof -
  have "lessNum (map_of d k) (Some \<infinity>) \<longleftrightarrow> k \<in> finiteAt d" for k
    by (cases "map_of d k") (auto simp: lessNum_def finiteAt_def)
  moreover have "k \<in> finiteAt d \<Longrightarrow> k \<in> fst ` set d" for k
    by (auto simp: finiteAt_def dest: map_of_SomeD intro: rev_image_eqI)
  ultimately show ?thesis by auto
qed

lemma dInv_initial:
  assumes "startNode s = Some st" and "nid (obj s st) \<in> set (nodeIds s)" and "distinct (nodeIds s)"
  shows "dInv s (nodeIds s)
           (fold (\<lambda>i d. AList.update i (if i = nid (obj s st) then 0 else \<infinity>) d) (nodeIds s) [])
           (fold (\<lambda>i p. AList.update i None p) (nodeIds s) [])"
proof -
  let ?d = "fold (\<lambda>i d. AList.update i (if i = nid (obj s st) then 0 else \<infinity>) d) (nodeIds s) []"
  let ?p = "fold (\<lambda>i p. AList.update i None p) (nodeIds s) []"
  have d: "map_of ?d k = (if k \<in> set (nodeIds s) then Some (if k = nid (obj s st) then 0 else \<infinity>) else None)" for k
    by (subst map_of_fold_update) simp
  have p: "map_of ?p k = (if k \<in> set (nodeIds s) then Some None else None)" for k
    by (subst map_of_fold_update) simp
  have fin: "finiteAt ?d = {nid (obj s st)}"
    using assms(2) by (auto simp: finiteAt_def d zero_enat_def split: if_splits)
  have dm: "dom (map_of ?d) = set (nodeIds s)" by (auto simp: dom_def d)
  have "nid (obj s st) \<in> reachable s" using assms(1) by (rule reachable.start)
  then show ?thesis unfolding dInv_def fin dm using assms by (simp add: p)
qed

lemma astarRelax_relax:
  assumes "fst nb \<in> set q"
  shows "fst (snd (astarRelax s u vn nb (os, g, f, cf, acc))) = fst (relax u q nb (g, p, a))"
  using assms by (simp add: astarRelax_def relax_def Let_def split: option.splits)

lemma fold_astarRelax_relax:
  assumes "fst ` set nbs \<subseteq> set q"
  shows "fst (snd (fold (astarRelax s u vn) nbs (os, g, f, cf, acc)))
       = fst (fold (relax u q) nbs (g, p, a))"
  using assms
proof (induction nbs arbitrary: os g f cf acc p a)
  case Nil
  then show ?case by simp
next
  case (Cons nb nbs)
  obtain os1 g1 f1 cf1 acc1
    where r: "astarRelax s u vn nb (os, g, f, cf, acc) = (os1, g1, f1, cf1, acc1)"
    by (cases "astarRelax s u vn nb (os, g, f, cf, acc)") auto
  obtain d1 p1 a1 where r': "relax u q nb (g, p, a) = (d1, p1, a1)"
    by (cases "relax u q nb (g, p, a)") auto
  have "fst nb \<in> set q" using Cons.prems by simp
  from astarRelax_relax [OF this, of s u vn os g f cf acc p a] r r' have "g1 = d1" by simp
  moreover have "fst ` set nbs \<subseteq> set q" using Cons.prems by simp
  note Cons.IH [OF this, of os1 g1 f1 cf1 acc1 p1 a1]
  ultimately show ?case using r r' by simp
qed

lemma fold_astarRelax_scores:
  assumes "fold (astarRelax s u vn) nbs (os, g, f, cf, acc) = (os', g', f', cf', acc')"
  shows "dom (map_of g') = dom (map_of g) \<and>
    finiteAt g \<subseteq> finiteAt g' \<and>
    finiteAt g' \<subseteq> finiteAt g \<union> {v \<in> fst ` set nbs. u \<in> finiteAt g} \<and>
    (u \<in> finiteAt g \<longrightarrow> (\<forall>v\<in>fst ` set nbs. v \<in> dom (map_of g) \<longrightarrow> v \<in> finiteAt g'))"
proof -
  obtain d' p' a' where r: "fold (relax u (map fst nbs)) nbs (g, [], []) = (d', p', a')"
    by (cases "fold (relax u (map fst nbs)) nbs (g, [], [])") auto
  have "fst ` set nbs \<subseteq> set (map fst nbs)" by simp
  from fold_astarRelax_relax [OF this, of s u vn os g f cf acc "[]" "[]"] assms r
  have "g' = d'" by simp
  with fold_relax_props [OF r] show ?thesis by simp
qed

lemma astarRelax_cases:
  assumes "astarRelax s u vn nb (os, g, f, cf, acc) = (os', g', f', cf', acc')"
  shows "(os' = os \<and> g' = g \<and> f' = f \<and> acc' = acc) \<or>
    (\<exists>n sc x. g' = AList.update (fst nb) (enat n) g \<and> f' = AList.update (fst nb) sc f \<and>
       set os' = insert (fst nb) (set os) \<and> acc' = acc @ [x] \<and> path x = [])"
proof (cases "map_of g u")
  case None
  with assms show ?thesis by (simp add: astarRelax_def)
next
  case (Some gc)
  show ?thesis
  proof (cases "lessNum (Some (gc + enat (snd nb))) (map_of g (fst nb))")
    case False
    with assms Some show ?thesis by (simp add: astarRelax_def)
  next
    case True
    then obtain dv where dv: "map_of g (fst nb) = Some dv" "gc + enat (snd nb) < dv"
      by (cases "map_of g (fst nb)") (auto simp: lessNum_def)
    then obtain n where n: "gc + enat (snd nb) = enat n"
      by (cases "gc + enat (snd nb)") auto
    let ?sc = "plusScore (enat n) (heuristic s (fst nb))"
    let ?os = "if fst nb \<notin> set os then os @ [fst nb] else os"
    let ?x = "astarStep (UpdatedScores (fst nb) (enat n) ?sc) ?os vn []
                (AList.update (fst nb) (enat n) g) (AList.update (fst nb) ?sc f)"
    have "g' = AList.update (fst nb) (enat n) g" and "f' = AList.update (fst nb) ?sc f"
      and "os' = ?os" and "acc' = acc @ [?x]"
      using assms Some True n by (auto simp: astarRelax_def Let_def)
    moreover have "set ?os = insert (fst nb) (set os)" by auto
    moreover have "path ?x = []" by (simp add: astarStep_def)
    ultimately show ?thesis by blast
  qed
qed

lemma fold_astarRelax_open:
  assumes "fold (astarRelax s u vn) nbs (os, g, f, cf, acc) = (os', g', f', cf', acc')"
  shows "set os \<subseteq> set os' \<and> set os' \<subseteq> set os \<union> finiteAt g' \<and>
    dom (map_of f) \<subseteq> dom (map_of f') \<and>
    ((\<forall>x\<in>set acc. path x = []) \<longrightarrow> (\<forall>x\<in>set acc'. path x = [])) \<and>
    finiteAt g' \<subseteq> finiteAt g \<union> set os'"
  using assms
proof (induction nbs arbitrary: os g f cf acc)
  case Nil
  then show ?case by simp
next
  case (Cons nb nbs)
  obtain os1 g1 f1 cf1 acc1
    where r: "astarRelax s u vn nb (os, g, f, cf, acc) = (os1, g1, f1, cf1, acc1)"
    by (cases "astarRelax s u vn nb (os, g, f, cf, acc)") auto
  have s1: "set os \<subseteq> set os1 \<and> set os1 \<subseteq> set os \<union> finiteAt g1 \<and>
    dom (map_of f) \<subseteq> dom (map_of f1) \<and>
    ((\<forall>x\<in>set acc. path x = []) \<longrightarrow> (\<forall>x\<in>set acc1. path x = [])) \<and>
    finiteAt g1 \<subseteq> finiteAt g \<union> set os1"
    using astarRelax_cases [OF r]
  proof (elim disjE exE conjE)
    assume "os1 = os" "g1 = g" "f1 = f" "acc1 = acc"
    then show ?thesis by simp
  next
    fix n sc x
    assume a: "g1 = AList.update (fst nb) (enat n) g" "f1 = AList.update (fst nb) sc f"
      "set os1 = insert (fst nb) (set os)" "acc1 = acc @ [x]" "path x = []"
    have "dom (map_of f1) = insert (fst nb) (dom (map_of f))"
      unfolding a(2) by (simp add: update_conv')
    with a show ?thesis by (auto simp: finiteAt_update)
  qed
  have "fold (astarRelax s u vn) nbs (astarRelax s u vn nb (os, g, f, cf, acc))
      = (os', g', f', cf', acc')"
    using Cons.prems by simp
  then have f: "fold (astarRelax s u vn) nbs (os1, g1, f1, cf1, acc1) = (os', g', f', cf', acc')"
    unfolding r .
  note ih = Cons.IH [OF f]
  have mono: "finiteAt g1 \<subseteq> finiteAt g'"
    using fold_astarRelax_scores [OF f] by simp
  have c1: "set os \<subseteq> set os'" using s1 ih by blast
  have c2: "set os' \<subseteq> set os \<union> finiteAt g'"
  proof
    fix y assume "y \<in> set os'"
    with ih have "y \<in> set os1 \<or> y \<in> finiteAt g'" by blast
    then show "y \<in> set os \<union> finiteAt g'"
    proof
      assume "y \<in> set os1"
      with s1 have "y \<in> set os \<or> y \<in> finiteAt g1" by blast
      with mono show ?thesis by blast
    next
      assume "y \<in> finiteAt g'" then show ?thesis by simp
    qed
  qed
  have c3: "dom (map_of f) \<subseteq> dom (map_of f')" using s1 ih by blast
  have c4: "(\<forall>x\<in>set acc. path x = []) \<longrightarrow> (\<forall>x\<in>set acc'. path x = [])"
    using s1 ih by blast
  have c5: "finiteAt g' \<subseteq> finiteAt g \<union> set os'"
  proof
    fix y assume "y \<in> finiteAt g'"
    with ih have "y \<in> finiteAt g1 \<or> y \<in> set os'" by blast
    then show "y \<in> finiteAt g \<union> set os'"
    proof
      assume "y \<in> finiteAt g1"
      with s1 have "y \<in> finiteAt g \<or> y \<in> set os1" by blast
      moreover have "set os1 \<subseteq> set os'" using ih by blast
      ultimately show ?thesis by blast
    next
      assume "y \<in> set os'" then show ?thesis by simp
    qed
  qed
  show ?case by (intro conjI c1 c2 c3 c4 c5)
qed

lemma aInv_closed:
  assumes "aInv s [] g f"
  shows "finiteAt g = reachable s"
proof
  show "finiteAt g \<subseteq> reachable s" using assms by (simp add: aInv_def)
  show "reachable s \<subseteq> finiteAt g"
  proof
    fix x assume "x \<in> reachable s"
    then show "x \<in> finiteAt g"
    proof (induction rule: reachable.induct)
      case (start st)
      with assms show ?case by (auto simp: aInv_def)
    next
      case (step u v w)
      have "v \<in> fst ` set (adjGet (adj s) u)" using step.hyps(2) by force
      moreover have "\<forall>u\<in>finiteAt g. \<forall>v\<in>fst ` set (adjGet (adj s) u).
          v \<in> set (nodeIds s) \<longrightarrow> v \<in> finiteAt g"
        using assms by (simp add: aInv_def)
      ultimately show ?case using step.IH step.hyps(3) by blast
    qed
  qed
qed

lemma aInv_step:
  assumes inv: "aInv s os g f" and uq: "u \<in> set os"
    and f: "fold (astarRelax s u vn) (adjGet (adj s) u) (remove1 u os, g, f, cf, acc)
              = (os', g', f', cf', acc')"
  shows "aInv s os' g' f'"
proof -
  let ?nbs = "adjGet (adj s) u"
  note fp = fold_astarRelax_scores [OF f]
  note p1 = fp [THEN conjunct1] and p2 = fp [THEN conjunct2, THEN conjunct1]
    and p3 = fp [THEN conjunct2, THEN conjunct2, THEN conjunct1]
    and p4 = fp [THEN conjunct2, THEN conjunct2, THEN conjunct2]
  note fo = fold_astarRelax_open [OF f]
  note o1 = fo [THEN conjunct1] and o2 = fo [THEN conjunct2, THEN conjunct1]
    and o3 = fo [THEN conjunct2, THEN conjunct2, THEN conjunct1]
    and o5 = fo [THEN conjunct2, THEN conjunct2, THEN conjunct2, THEN conjunct2]
  from inv have i1: "dom (map_of g) = set (nodeIds s)" and i2: "set os \<subseteq> finiteAt g"
    and i4: "finiteAt g \<subseteq> reachable s"
    and i5: "\<exists>st. startNode s = Some st \<and> nid (obj s st) \<in> finiteAt g"
    and i6: "\<forall>u\<in>finiteAt g. u \<notin> set os \<longrightarrow>
        (\<forall>v\<in>fst ` set (adjGet (adj s) u). v \<in> set (nodeIds s) \<longrightarrow> v \<in> finiteAt g)"
    and i7: "set (nodeIds s) \<subseteq> dom (map_of f)"
    by (simp_all add: aInv_def)
  have ug: "u \<in> finiteAt g" using uq i2 by blast
  have j1: "dom (map_of g') = set (nodeIds s)" using p1 i1 by simp
  have j2: "set os' \<subseteq> finiteAt g'"
  proof
    fix x assume "x \<in> set os'"
    with o2 have "x \<in> set (remove1 u os) \<or> x \<in> finiteAt g'" by blast
    then show "x \<in> finiteAt g'"
    proof
      assume "x \<in> set (remove1 u os)"
      then have "x \<in> set os" using set_remove1_subset [of u os] by blast
      with i2 p2 show ?thesis by blast
    qed
  qed
  have j4: "finiteAt g' \<subseteq> reachable s"
  proof
    fix x assume x: "x \<in> finiteAt g'"
    with p3 have "x \<in> finiteAt g \<or> x \<in> fst ` set ?nbs" by blast
    then show "x \<in> reachable s"
    proof
      assume "x \<in> finiteAt g" with i4 show ?thesis by blast
    next
      assume "x \<in> fst ` set ?nbs"
      then obtain w where w: "(x, w) \<in> set ?nbs" by force
      have r1: "u \<in> reachable s" using ug i4 by blast
      have r3: "x \<in> set (nodeIds s)" using x finiteAt_dom [of g'] j1 by blast
      show ?thesis by (rule reachable.step [OF r1 w r3])
    qed
  qed
  have j5: "\<exists>st. startNode s = Some st \<and> nid (obj s st) \<in> finiteAt g'"
    using i5 p2 by blast
  have j6: "\<forall>x\<in>finiteAt g'. x \<notin> set os' \<longrightarrow>
        (\<forall>v\<in>fst ` set (adjGet (adj s) x). v \<in> set (nodeIds s) \<longrightarrow> v \<in> finiteAt g')"
  proof (intro ballI impI)
    fix x v assume x: "x \<in> finiteAt g'" "x \<notin> set os'"
      and v: "v \<in> fst ` set (adjGet (adj s) x)" "v \<in> set (nodeIds s)"
    have xg: "x \<in> finiteAt g" using o5 x by blast
    show "v \<in> finiteAt g'"
    proof (cases "x = u")
      case True
      moreover have "v \<in> dom (map_of g)" using v(2) i1 by simp
      ultimately show ?thesis using p4 ug v(1) by blast
    next
      case False
      have "x \<notin> set (remove1 u os)" using x(2) o1 by blast
      with False have "x \<notin> set os" by simp
      with i6 xg v have "v \<in> finiteAt g" by blast
      with p2 show ?thesis by blast
    qed
  qed
  have j7: "set (nodeIds s) \<subseteq> dom (map_of f')" using i7 o3 by blast
  show ?thesis unfolding aInv_def by (intro conjI j1 j2 j4 j5 j6 j7)
qed

lemma finiteKeys_finiteAt: "set (finiteKeys g) = finiteAt g"
proof -
  have "lessNum (map_of g k) (Some \<infinity>) \<longleftrightarrow> k \<in> finiteAt g" for k
    by (cases "map_of g k") (auto simp: lessNum_def finiteAt_def)
  moreover have "k \<in> finiteAt g \<Longrightarrow> k \<in> fst ` set g" for k
    by (auto simp: finiteAt_def dest: map_of_SomeD intro: rev_image_eqI)
  ultimately show ?thesis by (auto simp: finiteKeys_def)
qed

lemma astarLoop_unreachable:
  assumes "aInv s os g f" and "goalNode s = Some gl" and "nid (obj s gl) \<notin> reachable s"
    and "\<forall>x\<in>set acc. path x = []"
  shows "\<exists>g' f' acc'. astarLoop s os g f cf acc = Inr (g', f', acc') \<and>
           finiteAt g' = reachable s \<and> (\<forall>x\<in>set acc'. path x = [])"
proof -
  define R :: "((nat list \<times> (nat \<times> enat) list) \<times> (nat list \<times> (nat \<times> enat) list)) set"
    where "R = measures [\<lambda>(os, g). infiniteEntries g, \<lambda>(os, g). finiteSum g, \<lambda>(os, g). length os]"
  have "wf R" by (simp add: R_def)
  from this assms(1,4) show ?thesis
  proof (induction "(os, g)" arbitrary: os g f cf acc rule: wf_induct_rule)
    case less
    note inv = less.prems(1) and clean = less.prems(2)
    show ?case
    proof (cases os)
      case Nil
      have "finiteAt g = reachable s" using inv Nil by (intro aInv_closed [of s g f]) simp
      moreover have "astarLoop s os g f cf acc = Inr (g, f, acc)"
        using Nil by (subst astarLoop.simps) simp
      ultimately show ?thesis using clean by simp
    next
      case (Cons first others)
      define u where "u = pickLowest f first os"
      have uq: "u \<in> set os"
        using pickLowest_in_openSet [of f first os] Cons by (auto simp: u_def)
      have ug: "u \<in> finiteAt g" using uq inv by (auto simp: aInv_def)
      have "u \<in> reachable s" using ug inv by (auto simp: aInv_def)
      with assms(3) have ne: "u \<noteq> nid (obj s gl)" by blast
      have "u \<in> set (nodeIds s)" using ug finiteAt_dom [of g] inv by (auto simp: aInv_def)
      then have "u \<in> dom (map_of f)" using inv by (auto simp: aInv_def)
      then obtain fc where fc: "map_of f u = Some fc" by blast
      let ?acc1 = "acc @ [astarStep (VisitingWithFScore u fc) (remove1 u os) (finiteKeys g) [] g f]"
      obtain os' g' f' cf' acc' where
        fo: "fold (astarRelax s u (finiteKeys g)) (adjGet (adj s) u) (remove1 u os, g, f, cf, ?acc1)
               = (os', g', f', cf', acc')"
        by (cases "fold (astarRelax s u (finiteKeys g)) (adjGet (adj s) u)
                     (remove1 u os, g, f, cf, ?acc1)") auto
      have inv': "aInv s os' g' f'" by (rule aInv_step [OF inv uq fo])
      have "\<forall>x\<in>set ?acc1. path x = []" using clean by (simp add: astarStep_def)
      with fold_astarRelax_open [OF fo] have clean': "\<forall>x\<in>set acc'. path x = []" by blast
      have "length (remove1 u os) < length os"
        using uq by (simp add: length_remove1) (cases os; auto)
      with fold_astarRelax_lowered [OF fo] have "((os', g'), (os, g)) \<in> R"
        by (auto simp: R_def lowered_def)
      from less.hyps [OF this inv' clean', of cf']
      obtain g2 f2 acc2 where res: "astarLoop s os' g' f' cf' acc' = Inr (g2, f2, acc2)"
        and fin: "finiteAt g2 = reachable s" and cl: "\<forall>x\<in>set acc2. path x = []"
        by blast
      have "astarLoop s os g f cf acc = astarLoop s os' g' f' cf' acc'"
        using Cons assms(2) ne fc fo unfolding u_def
        by (subst astarLoop.simps) (simp add: Let_def)
      with res fin cl show ?thesis by simp
    qed
  qed
qed

lemma reachable_subset:
  assumes "\<forall>st. startNode s = Some st \<longrightarrow> nid (obj s st) \<in> A"
    and "\<forall>u\<in>A. \<forall>v\<in>fst ` set (adjGet (adj s) u). v \<in> set (nodeIds s) \<longrightarrow> v \<in> A"
  shows "reachable s \<subseteq> A"
proof
  fix x assume "x \<in> reachable s"
  then show "x \<in> A"
  proof (induction rule: reachable.induct)
    case (start st)
    with assms(1) show ?case by simp
  next
    case (step u v w)
    have "v \<in> fst ` set (adjGet (adj s) u)" using step.hyps(2) by force
    with assms(2) step.IH step.hyps(3) show ?case by blast
  qed
qed

lemma island_state:
  "startNode (after island) = Some 0" "goalNode (after island) = Some 2"
  "nid (obj (after island) 0) = 0" "nid (obj (after island) 2) = 2"
  "nodeIds (after island) = [0, 1, 2]"
  "adjGet (adj (after island)) 0 = [(1, 3)]" "adjGet (adj (after island)) (Suc 0) = [(0, 3)]"
  "sum_list (adjWeights (after island)) = 6"
  by code_simp+

lemma island_reachable: "reachable (after island) = {0, 1}"
proof
  show "reachable (after island) \<subseteq> {0, 1}"
    by (rule reachable_subset) (simp_all add: island_state)
  have 0: "0 \<in> reachable (after island)"
    using reachable.start [of "after island" 0] by (simp add: island_state)
  have "1 \<in> reachable (after island)"
    by (rule reachable.step [OF 0, of 1 3]) (simp_all add: island_state)
  with 0 show "{0, 1} \<subseteq> reachable (after island)" by simp
qed

text \<open>
  \<^verbatim>\<open>prepareDijkstra\<close> on a graph whose goal is not in the component of the start
  node, when the start node is in \<^verbatim>\<open>state.nodes\<close>, no two nodes share an id and the
  weights of the adjacency map together stay below \<open>2\<^sup>5\<^sup>3\<close>. It
  returns a trace; the last step is the "completed" step, with an empty path and the
  component of the start node as its visited set. And when the goal is in
  \<^verbatim>\<open>state.nodes\<close>, the trace also has the step
  \<^verbatim>\<open>Found shortest path to goal with distance Infinity\<close> with the one-element path of
  the goal: the goal leaves the queue at distance \<^verbatim>\<open>Infinity\<close>, and the loop does not
  test for that.
\<close>

theorem dijkstra_unreachable_goal:
  assumes "startNode s = Some st" and "goalNode s = Some g"
    and "nid (obj s st) \<in> set (nodeIds s)" and "distinct (nodeIds s)"
    and "nid (obj s g) \<notin> reachable s" and "sum_list (adjWeights s) < 2 ^ 53"
  shows "\<exists>trace. prepareDijkstra s = Inr trace \<and>
           desc (last trace) = DijkstraCompleted \<and> path (last trace) = [] \<and>
           set (visited (last trace)) = reachable s \<and>
           (nid (obj s g) \<in> set (nodeIds s) \<longrightarrow>
              (\<exists>x\<in>set trace. desc x = FoundShortestPath (Some \<infinity>) \<and> path x = [nid (obj s g)]))"
proof -
  let ?d = "fold (\<lambda>i d. AList.update i (if i = nid (obj s st) then 0 else \<infinity>) d) (nodeIds s) []"
  let ?p = "fold (\<lambda>i p. AList.update i None p) (nodeIds s) []"
  let ?acc = "[\<lparr> desc = StartingDijkstra (labelOrId (obj s st)), ds = nodeIds s,
                        visited = [], path = [], distances = Some ?d,
                        gScores = None, fScores = None \<rparr>]"
  have inv: "dInv s (nodeIds s) ?d ?p" by (rule dInv_initial [OF assms(1,3,4)])
  from dijkstraLoop_unreachable [OF inv assms(2,5), of ?acc]
  obtain d' acc' where res: "dijkstraLoop s (nodeIds s) ?d ?p ?acc = Inr (d', acc')"
    and fin: "finiteAt d' = reachable s"
    and fnd: "nid (obj s g) \<in> set (nodeIds s) \<longrightarrow>
              (\<exists>x\<in>set acc'. desc x = FoundShortestPath (Some \<infinity>) \<and> path x = [nid (obj s g)])"
    by blast
  let ?last = "\<lparr> desc = DijkstraCompleted, ds = [],
                         visited = filter (\<lambda>k. lessNum (map_of d' k) (Some \<infinity>)) (map fst d'),
                         path = [], distances = Some d', gScores = None, fScores = None \<rparr>"
  have "prepareDijkstra s = Inr (acc' @ [?last])"
    using assms(1) res unfolding prepareDijkstra_def nodeIds_def by (simp add: Let_def)
  moreover have "set (visited ?last) = reachable s"
    using fin visited_finiteAt [of d'] by (simp del: set_filter)
  ultimately show ?thesis using fnd by auto
qed

theorem dijkstra_unreachable_goal_witness:
  "startNode (after island) = Some 0 \<and> goalNode (after island) = Some 2 \<and>
   reachable (after island) = {0, 1} \<and>
   (\<exists>trace. prepareDijkstra (after island) = Inr trace \<and>
      desc (last trace) = DijkstraCompleted \<and> path (last trace) = [] \<and>
      set (visited (last trace)) = {0, 1} \<and>
      (\<exists>x\<in>set trace. desc x = FoundShortestPath (Some \<infinity>) \<and> path x = [2]))"
  using dijkstra_unreachable_goal [of "after island" 0 2]
  by (simp add: island_state island_reachable)

text \<open>
  \<^verbatim>\<open>prepareAStar\<close> on a graph whose goal is not in the component of the start node,
  when the start node is in \<^verbatim>\<open>state.nodes\<close> and the weights of the adjacency map
  together stay below \<open>2\<^sup>5\<^sup>3\<close>. It returns a trace; the last step is
  the "completed" step, with the component of the start node as its visited set; and no
  step of the trace carries a path. A node enters the open set only with a finite
  \<^verbatim>\<open>gScore\<close>, so an unreachable goal is never \<^verbatim>\<open>current\<close>.
\<close>

theorem astar_unreachable_goal:
  assumes "startNode s = Some st" and "goalNode s = Some g"
    and "nid (obj s st) \<in> set (nodeIds s)" and "nid (obj s g) \<notin> reachable s"
    and "sum_list (adjWeights s) < 2 ^ 53"
  shows "\<exists>trace. prepareAStar s = Inr trace \<and>
           desc (last trace) = AStarCompleted \<and>
           set (visited (last trace)) = reachable s \<and>
           (\<forall>x\<in>set trace. path x = [])"
proof -
  let ?S = "nid (obj s st)"
  let ?g = "fold (\<lambda>i g. AList.update i (if i = ?S then 0 else \<infinity>) g) (nodeIds s) []"
  let ?f = "fold (\<lambda>i f. AList.update i (if i = ?S then Finite (heuristic s ?S) else Infinity) f)
              (nodeIds s) []"
  let ?acc = "[astarStep (StartingAStar (labelOrId (obj s st))) [?S] [] [] ?g ?f]"
  have g: "map_of ?g k = (if k \<in> set (nodeIds s) then Some (if k = ?S then 0 else \<infinity>) else None)" for k
    by (subst map_of_fold_update) simp
  have f: "map_of ?f k = (if k \<in> set (nodeIds s)
             then Some (if k = ?S then Finite (heuristic s ?S) else Infinity) else None)" for k
    by (subst map_of_fold_update) simp
  have fin: "finiteAt ?g = {?S}"
    using assms(3) by (auto simp: finiteAt_def g zero_enat_def split: if_splits)
  have dm: "dom (map_of ?g) = set (nodeIds s)" by (auto simp: dom_def g)
  have df: "dom (map_of ?f) = set (nodeIds s)" by (auto simp: dom_def f)
  have "?S \<in> reachable s" using assms(1) by (rule reachable.start)
  then have inv: "aInv s [?S] ?g ?f" unfolding aInv_def fin dm df using assms by simp
  have "\<forall>x\<in>set ?acc. path x = []" by (simp add: astarStep_def)
  from astarLoop_unreachable [OF inv assms(2,4) this, of "[]"]
  obtain g' f' acc' where res: "astarLoop s [?S] ?g ?f [] ?acc = Inr (g', f', acc')"
    and fin': "finiteAt g' = reachable s" and cl: "\<forall>x\<in>set acc'. path x = []"
    by blast
  let ?last = "astarStep AStarCompleted [] (finiteKeys g') [] g' f'"
  have "prepareAStar s = Inr (acc' @ [?last])"
    using assms(1) res unfolding prepareAStar_def nodeIds_def by (simp add: Let_def)
  moreover have "set (visited ?last) = reachable s"
    using fin' by (simp add: astarStep_def finiteKeys_finiteAt)
  moreover have "desc ?last = AStarCompleted" and "path ?last = []"
    by (simp_all add: astarStep_def)
  ultimately show ?thesis using cl by auto
qed

theorem astar_unreachable_goal_witness:
  "startNode (after island) = Some 0 \<and> goalNode (after island) = Some 2 \<and>
   reachable (after island) = {0, 1} \<and>
   (\<exists>trace. prepareAStar (after island) = Inr trace \<and>
      desc (last trace) = AStarCompleted \<and>
      set (visited (last trace)) = {0, 1} \<and> list_all (\<lambda>x. path x = []) trace)"
  using astar_unreachable_goal [of "after island" 0 2]
  by (simp add: island_state island_reachable list_all_iff)

end
